theory Spec2Isabelle
  imports Main "HOL-Library.Word" "HOL-Library.Signed_Division"
begin

unbundle bit_operations_syntax

section \<open>Data model of securid.c\<close>

text \<open>
  Bytes (\<open>uint8_t\<close>, \<open>char\<close>) are 8-bit words. A C string is the list of its bytes before
  the terminating NUL; a pointer that may be \<open>NULL\<close> is an \<open>option\<close>. A buffer is a byte
  list, and a pointer into it is the buffer together with an index.
\<close>

type_synonym byte = "8 word"

text \<open>
  The block cipher is the library's (\<open>rijndael_*\<close> of libtomcrypt): the functions below take
  it as a parameter, key first, then the input block.
\<close>

type_synonym cipher = "byte list \<Rightarrow> byte list \<Rightarrow> byte list"

text \<open>
  \<open>securid.h\<close> is not among the sources. The constants whose value the specification or
  the code fixes are written as numerals where they are used
  (\<open>AES_KEY_SIZE = AES_BLOCK_SIZE = 16\<close>, \<open>TOKEN_BITS_PER_CHAR = 3\<close>, \<open>MAGIC_LEN = 7\<close>,
  \<open>VER_CHARS = 1\<close>, \<open>SERIAL_CHARS = 12\<close>, \<open>BINENC_OFS = 13\<close>, \<open>BINENC_BITS = 189\<close>,
  \<open>CHECKSUM_OFS = 76\<close>, \<open>CHECKSUM_BITS = 15\<close>, \<open>CHECKSUM_CHARS = 5\<close>, \<open>MIN_PIN = 4\<close>,
  \<open>MAX_PIN = 8\<close>). The remaining ones are the fields of a header record that the functions
  take as a parameter.
\<close>

record securid_h =
  MAX_PASS :: nat
  DEVID_CHARS :: nat
  MAX_TOKEN_BITS :: nat
  MIN_TOKEN_CHARS :: nat
  MAX_TOKEN_CHARS :: nat
  FL_PASSPROT :: "16 word"
  FL_SNPROT :: "16 word"
  FLD_PINMODE_SHIFT :: nat
  FLD_PINMODE_MASK :: "16 word"

text \<open>The header values of the stoken distribution, used for concrete runs.\<close>

definition stoken_h :: securid_h where
  "stoken_h = \<lparr>MAX_PASS = 40, DEVID_CHARS = 40, MAX_TOKEN_BITS = 255,
     MIN_TOKEN_CHARS = 81, MAX_TOKEN_CHARS = 103,
     FL_PASSPROT = 0x2000, FL_SNPROT = 0x1000,
     FLD_PINMODE_SHIFT = 3, FLD_PINMODE_MASK = 0x18\<rparr>"

text \<open>Modelled from the spec: \<open>SECURID_EPOCH\<close> of the missing header, section 6 (Time epoch).\<close>

definition SECURID_EPOCH :: int where
  "SECURID_EPOCH = 946684800"

record securid_token =
  serial :: "byte list"
  flags :: "16 word"
  exp_date :: "16 word"
  is_smartphone :: bool
  has_enc_seed :: bool
  enc_seed :: "byte list"
  dec_seed_hash :: "16 word"
  device_id_hash :: "16 word"
  has_dec_seed :: bool
  dec_seed :: "byte list"
  pinmode :: int
  pin :: "byte list"

datatype error = ERR_NONE | ERR_GENERAL | ERR_BAD_LEN | ERR_TOKEN_VERSION | ERR_CHECKSUM_FAILED
  | ERR_BAD_PASSWORD | ERR_MISSING_PASSWORD | ERR_DECRYPT_FAILED | ERR_BAD_DEVID

section \<open>Validation helpers\<close>

text \<open>
  The C types of \<open>securid_check_exp\<close>: \<open>int\<close> has 32 bits and \<open>time_t\<close> has 64. A signed
  result that leaves its type is taken modulo the width of the type (two's complement), as
  the compiled code does.
\<close>

definition wrap_int :: "int \<Rightarrow> int" where
  "wrap_int k = (k + 2 ^ 31) mod 2 ^ 32 - 2 ^ 31"

definition wrap_time_t :: "int \<Rightarrow> int" where
  "wrap_time_t k = (k + 2 ^ 63) mod 2 ^ 64 - 2 ^ 63"

text \<open>
  \<open>securid_check_exp\<close>. \<open>t->exp_date + 1\<close> and its product with the \<open>int\<close> constant
  \<open>wholeday\<close> are computed in \<open>int\<close>. The sum with \<open>SECURID_EPOCH\<close> is computed in the type of
  that constant of the missing header: \<open>epoch_wide\<close> says that it is wider than \<open>int\<close> (a
  \<open>long\<close> or \<open>time_t\<close> constant), otherwise the sum is an \<open>int\<close> as well. The result is stored in
  a \<open>time_t\<close>, the two compound assignments are done in \<open>time_t\<close>, and the quotient is narrowed
  to the \<open>int\<close> that is returned. \<open>/\<close> of C truncates towards zero (\<open>sdiv\<close>).
\<close>

definition securid_check_exp :: "bool \<Rightarrow> securid_token \<Rightarrow> int \<Rightarrow> int" where
  "securid_check_exp epoch_wide t now =
     (let halfday = 60 * 60 * 12; wholeday = 60 * 60 * 24;
          days = wrap_int (wrap_int (uint (exp_date t) + 1) * wholeday);
          exp_unix_time = (if epoch_wide then wrap_time_t (SECURID_EPOCH + days)
                           else wrap_int (SECURID_EPOCH + days));
          exp_unix_time = wrap_time_t (exp_unix_time + halfday);
          exp_unix_time = wrap_time_t (exp_unix_time - wrap_time_t now)
      in wrap_int (exp_unix_time sdiv wholeday))"

text \<open>
  \<open>securid_pin_required\<close> shifts first and masks afterwards;
  \<open>securid_token_info\<close> masks first and shifts afterwards for its "PIN mode" line.
\<close>

definition securid_pin_required :: "securid_h \<Rightarrow> securid_token \<Rightarrow> bool" where
  "securid_pin_required h t \<longleftrightarrow>
     2 \<le> (drop_bit (FLD_PINMODE_SHIFT h) (flags t) AND FLD_PINMODE_MASK h)"

definition token_info_pin_mode :: "securid_h \<Rightarrow> securid_token \<Rightarrow> 16 word" where
  "token_info_pin_mode h t = drop_bit (FLD_PINMODE_SHIFT h) (flags t AND FLD_PINMODE_MASK h)"

definition securid_pass_required :: "securid_h \<Rightarrow> securid_token \<Rightarrow> bool" where
  "securid_pass_required h t \<longleftrightarrow> flags t AND FL_PASSPROT h \<noteq> 0"

definition securid_devid_required :: "securid_h \<Rightarrow> securid_token \<Rightarrow> bool" where
  "securid_devid_required h t \<longleftrightarrow> flags t AND FL_SNPROT h \<noteq> 0"

text \<open>A token whose only non-zero field is \<open>flags\<close>.\<close>

definition flags_token :: "16 word \<Rightarrow> securid_token" where
  "flags_token f = \<lparr>serial = [], flags = f, exp_date = 0, is_smartphone = False,
     has_enc_seed = False, enc_seed = replicate 16 0, dec_seed_hash = 0, device_id_hash = 0,
     has_dec_seed = False, dec_seed = replicate 16 0, pinmode = 0, pin = []\<rparr>"

section \<open>Buffers and the block cipher\<close>

text \<open>
  \<open>memcpy (dst + off, src, n)\<close> and \<open>memset (dst + off, v, n)\<close> on a buffer; both stay
  inside the buffer when \<open>off + n \<le> length dst\<close>, which is the case at every call below
  under the bounds the theorems state.
\<close>

definition memcpy :: "byte list \<Rightarrow> nat \<Rightarrow> byte list \<Rightarrow> nat \<Rightarrow> byte list" where
  "memcpy dst off src n = take off dst @ take n src @ drop (off + n) dst"

definition memset :: "byte list \<Rightarrow> nat \<Rightarrow> byte \<Rightarrow> nat \<Rightarrow> byte list" where
  "memset dst off v n = take off dst @ replicate n v @ drop (off + n) dst"

text \<open>The C string that starts a buffer, and the byte a C string holds at an index
  (the terminating NUL at its end; the model reads 0 beyond it as well).\<close>

definition cstring :: "byte list \<Rightarrow> byte list" where
  "cstring buf = takeWhile (\<lambda>b. b \<noteq> 0) buf"

definition cstr_nth :: "byte list \<Rightarrow> nat \<Rightarrow> byte" where
  "cstr_nth s i = (if i < length s then s ! i else 0)"

text \<open>
  \<open>aes128_ecb_encrypt\<close>, \<open>aes128_ecb_decrypt\<close>: the library reads 16 bytes of key and 16
  bytes of input, and 16 bytes of its result are copied out.
\<close>

definition aes128_ecb_encrypt :: "cipher \<Rightarrow> byte list \<Rightarrow> byte list \<Rightarrow> byte list" where
  "aes128_ecb_encrypt aes key inp = take 16 (aes (take 16 key) (take 16 inp))"

definition aes128_ecb_decrypt :: "cipher \<Rightarrow> byte list \<Rightarrow> byte list \<Rightarrow> byte list" where
  "aes128_ecb_decrypt aes_inv key inp = take 16 (aes_inv (take 16 key) (take 16 inp))"

text \<open>What the theorems ask of the library: blocks of 16 bytes, and decryption inverts
  encryption under the same key.\<close>

definition block_fun :: "cipher \<Rightarrow> bool" where
  "block_fun aes \<longleftrightarrow> (\<forall>k b. length k = 16 \<and> length b = 16 \<longrightarrow> length (aes k b) = 16)"

definition block_cipher :: "cipher \<Rightarrow> cipher \<Rightarrow> bool" where
  "block_cipher aes aes_inv \<longleftrightarrow> block_fun aes \<and> block_fun aes_inv
     \<and> (\<forall>k b. length k = 16 \<and> length b = 16 \<longrightarrow> aes_inv k (aes k b) = b)"

text \<open>A stand-in cipher for concrete runs: bytewise addition of the key, then a rotation.\<close>

definition toy_enc :: cipher where
  "toy_enc k b = rotate1 (map2 (+) k b)"

definition toy_dec :: cipher where
  "toy_dec k c = map2 (-) (rotate 15 c) k"

section \<open>The MAC\<close>

definition encrypt_then_xor :: "cipher \<Rightarrow> byte list \<Rightarrow> byte list \<Rightarrow> byte list" where
  "encrypt_then_xor aes key work = map2 (XOR) work (aes128_ecb_encrypt aes key work)"

text \<open>The padding loop \<open>for (i = in_len * 8; i > 0; i >>= 8) *(p--) = (uint8_t)i\<close>;
  \<open>in_len * 8\<close> is taken without overflow of \<open>int\<close>.\<close>

function mac_pad_loop :: "nat \<Rightarrow> nat \<Rightarrow> byte list \<Rightarrow> byte list" where
  "mac_pad_loop i p pad =
     (if i > 0 then mac_pad_loop (i div 256) (p - 1) (pad[p := of_nat i]) else pad)"
  by pat_completeness auto
termination
  by (relation "measure (\<lambda>(i, p, pad). i)") auto

text \<open>The bulk loop \<open>for (; in_len > incr; in_len -= incr, in += incr, odd = !odd)\<close>: it
  returns what is left of the input, the work block and the parity.\<close>

function mac_bulk :: "cipher \<Rightarrow> byte list \<Rightarrow> byte list \<Rightarrow> bool \<Rightarrow> byte list \<times> byte list \<times> bool" where
  "mac_bulk aes inp work parity =
     (if length inp > 16
      then mac_bulk aes (drop 16 inp) (encrypt_then_xor aes (take 16 inp) work) (\<not> parity)
      else (inp, work, parity))"
  by pat_completeness auto
termination
  by (relation "measure (\<lambda>(aes, inp, work, parity). length inp)") auto

declare mac_pad_loop.simps [simp del] mac_bulk.simps [simp del]

definition securid_mac :: "cipher \<Rightarrow> byte list \<Rightarrow> byte list" where
  "securid_mac aes inp =
     (let zero = replicate 16 0; pad = replicate 16 0; lastblk = replicate 16 0;
          work = replicate 16 0xff;
          pad = mac_pad_loop (length inp * 8) 15 pad;
          (rest, work, parity) = mac_bulk aes inp work False;
          lastblk = memcpy lastblk 0 rest (length rest);
          work = encrypt_then_xor aes lastblk work;
          work = (if parity then encrypt_then_xor aes zero work else work);
          work = encrypt_then_xor aes pad work;
          out = work
      in encrypt_then_xor aes work out)"

definition securid_shortmac :: "cipher \<Rightarrow> byte list \<Rightarrow> 16 word" where
  "securid_shortmac aes inp =
     (let hash = securid_mac aes inp
      in push_bit 7 (ucast (hash ! 0)) OR drop_bit 1 (ucast (hash ! 1)))"

text \<open>
  The blocks that \<open>securid_mac\<close> passes to \<open>encrypt_then_xor\<close> as keys, in order, up to the
  padding block: the control flow of \<open>securid_mac\<close> without the cipher.
\<close>

function mac_bulk_blocks :: "byte list \<Rightarrow> bool \<Rightarrow> byte list list \<times> byte list \<times> bool" where
  "mac_bulk_blocks inp parity =
     (if length inp > 16
      then (let (bs, rest, parity') = mac_bulk_blocks (drop 16 inp) (\<not> parity)
            in (take 16 inp # bs, rest, parity'))
      else ([], inp, parity))"
  by pat_completeness auto
termination
  by (relation "measure (\<lambda>(inp, parity). length inp)") auto

declare mac_bulk_blocks.simps [simp del]

definition securid_mac_blocks :: "byte list \<Rightarrow> byte list list" where
  "securid_mac_blocks inp =
     (let (bs, rest, parity) = mac_bulk_blocks inp False
      in bs @ [memcpy (replicate 16 0) 0 rest (length rest)]
            @ (if parity then [replicate 16 0] else [])
            @ [mac_pad_loop (length inp * 8) 15 (replicate 16 0)])"

text \<open>The last step: \<open>memcpy(out, work, incr); encrypt_then_xor(work, out, enc)\<close>.\<close>

definition mac_tighten :: "cipher \<Rightarrow> byte list \<Rightarrow> byte list" where
  "mac_tighten aes work = encrypt_then_xor aes work work"

text \<open>
  The absorption order as the specification words it (section 4.2, steps 3 to 6): every
  full 16-byte block of the input, then the final partial (possibly empty) block padded with
  zeroes, then an all-zero block if the number of full blocks is odd, then the padding block.
\<close>

definition spec_mac_blocks :: "byte list \<Rightarrow> byte list list" where
  "spec_mac_blocks inp =
     (let n = length inp div 16;
          full = map (\<lambda>j. take 16 (drop (16 * j) inp)) [0..<n];
          final = drop (16 * n) inp
      in full @ [final @ replicate (16 - length final) 0]
              @ (if odd n then [replicate 16 0] else [])
              @ [mac_pad_loop (length inp * 8) 15 (replicate 16 0)])"

section \<open>Bit and numeric codecs\<close>

text \<open>
  \<open>numinput_to_bits\<close>: \<open>inp\<close> is the string at the pointer \<open>in\<close>, \<open>i\<close> the number of
  characters consumed, \<open>w\<close> the index of \<open>out[0]\<close> in the buffer. The loop counts \<open>n_bits\<close>
  down by 3 to zero; every call site passes a multiple of 3.
\<close>

function numinput_loop :: "byte list \<Rightarrow> nat \<Rightarrow> byte list \<Rightarrow> nat \<Rightarrow> nat \<Rightarrow> int \<Rightarrow> byte list" where
  "numinput_loop inp i out w n_bits bitpos =
     (if n_bits = 0 then out
      else let decoded = (ucast ((cstr_nth inp i - 0x30) AND 0x07) :: 16 word);
               decoded = push_bit (nat bitpos) decoded;
               out = out[w := out ! w OR ucast (drop_bit 8 decoded)];
               out = out[Suc w := out ! Suc w OR ucast (decoded AND 0xff)];
               bitpos = bitpos - 3
           in if bitpos < 0 then numinput_loop inp (Suc i) out (Suc w) (n_bits - 3) (bitpos + 8)
              else numinput_loop inp (Suc i) out w (n_bits - 3) bitpos)"
  by pat_completeness auto
termination
  by (relation "measure (\<lambda>(inp, i, out, w, n_bits, bitpos). n_bits)") auto

declare numinput_loop.simps [simp del]

definition numinput_to_bits :: "byte list \<Rightarrow> byte list \<Rightarrow> nat \<Rightarrow> byte list" where
  "numinput_to_bits inp out n_bits =
     numinput_loop inp 0 (memset out 0 0 ((n_bits + 7) div 8)) 0 n_bits 13"

text \<open>
  \<open>bits_to_numoutput\<close>: \<open>w\<close> is the index of \<open>in[0]\<close>, \<open>p\<close> the index in the buffer \<open>out\<close>
  at which the next character is written; the terminating NUL is written last.
\<close>

function numoutput_loop :: "byte list \<Rightarrow> nat \<Rightarrow> byte list \<Rightarrow> nat \<Rightarrow> nat \<Rightarrow> int \<Rightarrow> byte list" where
  "numoutput_loop inp w out p n_bits bitpos =
     (if n_bits = 0 then out[p := 0]
      else let binary = (push_bit 8 (ucast (inp ! w)) OR ucast (inp ! Suc w) :: 16 word);
               out = out[p := ucast (drop_bit (nat bitpos) binary AND 0x07) + 0x30];
               bitpos = bitpos - 3
           in if bitpos < 0 then numoutput_loop inp (Suc w) out (Suc p) (n_bits - 3) (bitpos + 8)
              else numoutput_loop inp w out (Suc p) (n_bits - 3) bitpos)"
  by pat_completeness auto
termination
  by (relation "measure (\<lambda>(inp, w, out, p, n_bits, bitpos). n_bits)") auto

declare numoutput_loop.simps [simp del]

definition bits_to_numoutput :: "byte list \<Rightarrow> byte list \<Rightarrow> nat \<Rightarrow> nat \<Rightarrow> byte list" where
  "bits_to_numoutput inp out p n_bits = numoutput_loop inp 0 out p n_bits 13"

fun get_bits_loop :: "byte list \<Rightarrow> nat \<Rightarrow> nat \<Rightarrow> nat \<Rightarrow> 32 word \<Rightarrow> 32 word" where
  "get_bits_loop inp w start 0 out = out"
| "get_bits_loop inp w start (Suc n) out =
     (let out = push_bit 1 out;
          out = (if push_bit start (ucast (inp ! w) :: 32 word) AND 0x80 \<noteq> 0 then out OR 0x01
                 else out);
          start = start + 1
      in if start = 8 then get_bits_loop inp (Suc w) 0 n out
         else get_bits_loop inp w start n out)"

definition get_bits :: "byte list \<Rightarrow> nat \<Rightarrow> nat \<Rightarrow> 32 word" where
  "get_bits inp start n_bits = get_bits_loop inp (start div 8) (start mod 8) n_bits 0"

text \<open>\<open>set_bits\<close>, with \<open>BIT(x) = 1 << x\<close>.\<close>

fun set_bits_loop :: "byte list \<Rightarrow> nat \<Rightarrow> nat \<Rightarrow> nat \<Rightarrow> 32 word \<Rightarrow> byte list" where
  "set_bits_loop out w start 0 val = out"
| "set_bits_loop out w start (Suc n) val =
     (let out = (if val AND push_bit 31 1 \<noteq> 0
                 then out[w := out ! w OR push_bit (7 - start) 1]
                 else out[w := out ! w AND NOT (push_bit (7 - start) 1)]);
          val = push_bit 1 val;
          start = start + 1
      in if start = 8 then set_bits_loop out (Suc w) 0 n val
         else set_bits_loop out w start n val)"

definition set_bits :: "byte list \<Rightarrow> nat \<Rightarrow> nat \<Rightarrow> 32 word \<Rightarrow> byte list" where
  "set_bits out start n_bits val =
     set_bits_loop out (start div 8) (start mod 8) n_bits (push_bit (32 - n_bits) val)"

section \<open>Key-hash derivation\<close>

text \<open>\<open>isdigit\<close> and \<open>isxdigit\<close> of the C library, in the C locale.\<close>

definition isdigit :: "byte \<Rightarrow> bool" where
  "isdigit c \<longleftrightarrow> 0x30 \<le> c \<and> c \<le> 0x39"

definition isxdigit :: "byte \<Rightarrow> bool" where
  "isxdigit c \<longleftrightarrow> isdigit c \<or> (0x41 \<le> c \<and> c \<le> 0x46) \<or> (0x61 \<le> c \<and> c \<le> 0x66)"

definition devid_char_ok :: "bool \<Rightarrow> byte \<Rightarrow> bool" where
  "devid_char_ok sp c \<longleftrightarrow> \<not> ((sp \<and> \<not> isxdigit c) \<or> (\<not> sp \<and> \<not> isdigit c))"

text \<open>The loop over the device id: \<open>len\<close> counts the digits kept so far, \<open>pos\<close> is the
  write index into \<open>key\<close>. The test \<open>len++ > devid_len\<close> compares the count before the
  increment.\<close>

fun devid_loop :: "bool \<Rightarrow> nat \<Rightarrow> byte list \<Rightarrow> nat \<Rightarrow> nat \<Rightarrow> byte list \<Rightarrow> error + (byte list \<times> nat)" where
  "devid_loop sp devid_len [] len pos key = Inr (key, pos)"
| "devid_loop sp devid_len (c # devid) len pos key =
     (if \<not> devid_char_ok sp c then devid_loop sp devid_len devid len pos key
      else if len > devid_len then Inl ERR_BAD_PASSWORD
      else devid_loop sp devid_len devid (len + 1) (pos + 1) (key[pos := c]))"

definition magic :: "byte list" where
  "magic = [0xd8, 0xf5, 0x32, 0x53, 0x82, 0x89, 0x00]"

text \<open>The first part of \<open>generate_key_hash\<close>, up to the end of the device-id loop: the
  buffer \<open>key\<close>, the offset of \<open>devid_buf\<close> in it, and \<open>pos\<close>.\<close>

definition key_fill :: "securid_h \<Rightarrow> byte list option \<Rightarrow> byte list option \<Rightarrow> bool
    \<Rightarrow> error + (byte list \<times> nat \<times> nat)" where
  "key_fill h pass devid sp =
     (let key = replicate (MAX_PASS h + DEVID_CHARS h + 7 + 1) 0;
          devid_len = (if sp then 40 else 32)
      in case (case pass of None \<Rightarrow> Inr (key, 0)
               | Some pw \<Rightarrow> if length pw > MAX_PASS h then Inl ERR_BAD_PASSWORD
                            else Inr (memcpy key 0 pw (length pw), length pw)) of
           Inl e \<Rightarrow> Inl e
         | Inr (key, pos0) \<Rightarrow>
             (case (case devid of None \<Rightarrow> Inr (key, pos0)
                    | Some dv \<Rightarrow> devid_loop sp devid_len dv 0 pos0 key) of
                Inl e \<Rightarrow> Inl e
              | Inr (key, pos) \<Rightarrow> Inr (key, pos0, pos)))"

text \<open>\<open>generate_key_hash\<close> returns the key hash and the device-id hash (every caller asks
  for it), or the error code with both outputs untouched.\<close>

definition generate_key_hash :: "cipher \<Rightarrow> securid_h \<Rightarrow> byte list option \<Rightarrow> byte list option
    \<Rightarrow> bool \<Rightarrow> error + (byte list \<times> 16 word)" where
  "generate_key_hash aes h pass devid sp =
     (case key_fill h pass devid sp of
        Inl e \<Rightarrow> Inl e
      | Inr (key, pos0, pos) \<Rightarrow>
          let devid_len = (if sp then 40 else 32);
              device_id_hash = securid_shortmac aes (take devid_len (drop pos0 key));
              key = memcpy key pos magic 7
          in Inr (securid_mac aes (take (pos + 7) key), device_id_hash))"

text \<open>The bytes that \<open>generate_key_hash\<close> passes to \<open>securid_mac\<close> for the key hash.\<close>

definition key_hash_input :: "securid_h \<Rightarrow> byte list option \<Rightarrow> byte list option \<Rightarrow> bool
    \<Rightarrow> error + byte list" where
  "key_hash_input h pass devid sp =
     (case key_fill h pass devid sp of
        Inl e \<Rightarrow> Inl e
      | Inr (key, pos0, pos) \<Rightarrow> Inr (take (pos + 7) (memcpy key pos magic 7)))"

text \<open>The buffer of the specification (section 4.3): the password, the filtered device id
  padded with zero bytes to \<open>devid_len\<close>, the magic suffix.\<close>

definition spec_key_buffer :: "byte list \<Rightarrow> byte list \<Rightarrow> bool \<Rightarrow> byte list" where
  "spec_key_buffer pw dv sp =
     (let devid_len = (if sp then 40 else 32);
          digits = filter (devid_char_ok sp) dv
      in pw @ digits @ replicate (devid_len - length digits) 0 @ magic)"

section \<open>Token codec\<close>

text \<open>The record after \<open>memset(t, 0, sizeof(*t))\<close>.\<close>

definition zero_token :: securid_token where
  "zero_token = \<lparr>serial = [], flags = 0, exp_date = 0, is_smartphone = False,
     has_enc_seed = False, enc_seed = replicate 16 0, dec_seed_hash = 0, device_id_hash = 0,
     has_dec_seed = False, dec_seed = replicate 16 0, pinmode = 0, pin = []\<rparr>"

text \<open>
  \<open>securid_decode_token\<close> returns its code and the record \<open>*t\<close> as it stands at the return.
  \<open>d\<close> is the content of the uninitialised local array when the function is entered. The
  offsets \<open>len - 5\<close>, 1 and 13 lie inside the string when it has at least 76 characters.
\<close>

definition securid_decode_token :: "cipher \<Rightarrow> securid_h \<Rightarrow> byte list \<Rightarrow> byte list
    \<Rightarrow> securid_token \<Rightarrow> error \<times> securid_token" where
  "securid_decode_token aes h inp d t =
     (let len = length inp in
      if len < MIN_TOKEN_CHARS h \<or> len > MAX_TOKEN_CHARS h then (ERR_BAD_LEN, t)
      else if cstr_nth inp 0 \<noteq> 0x31 \<and> cstr_nth inp 0 \<noteq> 0x32 then (ERR_TOKEN_VERSION, t)
      else
        let t = zero_token;
            d = numinput_to_bits (drop (len - 5) inp) d 15;
            token_mac = (ucast (get_bits d 0 15) :: 16 word);
            computed_mac = securid_shortmac aes (take (len - 5) inp)
        in if token_mac \<noteq> computed_mac then (ERR_CHECKSUM_FAILED, t)
           else
             let t = t\<lparr>serial := take 12 (drop 1 inp)\<rparr>;
                 d = numinput_to_bits (drop 13 inp) d 189;
                 t = t\<lparr>enc_seed := take 16 d\<rparr>;
                 t = t\<lparr>has_enc_seed := True\<rparr>;
                 t = t\<lparr>flags := ucast (get_bits d 128 16)\<rparr>;
                 t = t\<lparr>exp_date := ucast (get_bits d 144 14)\<rparr>;
                 t = t\<lparr>dec_seed_hash := ucast (get_bits d 159 15)\<rparr>;
                 t = t\<lparr>device_id_hash := ucast (get_bits d 174 15)\<rparr>
             in (ERR_NONE, t))"

text \<open>
  \<open>securid_decrypt_seed\<close>, likewise with the record at the return.
\<close>

definition securid_decrypt_seed :: "cipher \<Rightarrow> cipher \<Rightarrow> securid_h \<Rightarrow> securid_token
    \<Rightarrow> byte list option \<Rightarrow> byte list option \<Rightarrow> error \<times> securid_token" where
  "securid_decrypt_seed aes aes_inv h t pass devid =
     (if flags t AND FL_PASSPROT h \<noteq> 0 \<and> pass = None then (ERR_MISSING_PASSWORD, t)
      else if flags t AND FL_SNPROT h \<noteq> 0 \<and> devid = None then (ERR_MISSING_PASSWORD, t)
      else
        case generate_key_hash aes h
               (if flags t AND FL_PASSPROT h \<noteq> 0 then pass else None)
               (if flags t AND FL_SNPROT h \<noteq> 0 then devid else None)
               (is_smartphone t) of
          Inl rc \<Rightarrow> (rc, t)
        | Inr (key_hash, dev_hash) \<Rightarrow>
            if flags t AND FL_SNPROT h \<noteq> 0 \<and> dev_hash \<noteq> device_id_hash t
            then (ERR_BAD_DEVID, t)
            else
              let t = t\<lparr>dec_seed := aes128_ecb_decrypt aes_inv key_hash (enc_seed t)\<rparr>;
                  computed_mac = securid_shortmac aes (take 16 (dec_seed t))
              in if computed_mac \<noteq> dec_seed_hash t then (ERR_DECRYPT_FAILED, t)
                 else (ERR_NONE, t\<lparr>has_dec_seed := True\<rparr>))"

text \<open>
  \<open>securid_encode_token\<close>: \<open>out\<close> is the caller's buffer; the result is the buffer after
  the call, together with the local record \<open>newt\<close> as it stands at the return.
  \<open>sprintf(out, "2%s", newt.serial)\<close> writes the character 2, the serial and a NUL.
\<close>

definition securid_encode_token :: "cipher \<Rightarrow> securid_h \<Rightarrow> securid_token \<Rightarrow> byte list option
    \<Rightarrow> byte list option \<Rightarrow> byte list \<Rightarrow> error + (byte list \<times> securid_token)" where
  "securid_encode_token aes h t pass devid out =
     (let newt = t;
          pass = (case pass of None \<Rightarrow> None | Some pw \<Rightarrow> if length pw = 0 then None else Some pw);
          devid = (case devid of None \<Rightarrow> None | Some dv \<Rightarrow> if length dv = 0 then None else Some dv)
      in case generate_key_hash aes h pass devid (is_smartphone newt) of
           Inl rc \<Rightarrow> Inl rc
         | Inr (key_hash, dev_hash) \<Rightarrow>
             let newt = newt\<lparr>device_id_hash := dev_hash\<rparr>;
                 newt = (if pass \<noteq> None then newt\<lparr>flags := flags newt OR FL_PASSPROT h\<rparr>
                         else newt\<lparr>flags := flags newt AND NOT (FL_PASSPROT h)\<rparr>);
                 newt = (if devid \<noteq> None then newt\<lparr>flags := flags newt OR FL_SNPROT h\<rparr>
                         else newt\<lparr>flags := flags newt AND NOT (FL_SNPROT h)\<rparr>);
                 d = replicate (MAX_TOKEN_BITS h div 8 + 2) 0;
                 newt = newt\<lparr>enc_seed := aes128_ecb_encrypt aes key_hash (dec_seed newt)\<rparr>;
                 d = memcpy d 0 (enc_seed newt) 16;
                 d = set_bits d 128 16 (ucast (flags newt));
                 d = set_bits d 144 14 (ucast (exp_date newt));
                 d = set_bits d 159 15 (ucast (securid_shortmac aes (take 16 (dec_seed newt))));
                 d = set_bits d 174 15 (ucast (device_id_hash newt));
                 out = memcpy out 0 (0x32 # serial newt @ [0]) (length (serial newt) + 2);
                 out = bits_to_numoutput d out 13 189;
                 d = set_bits d 0 15 (ucast (securid_shortmac aes (take 76 out)));
                 out = bits_to_numoutput d out 76 15
             in Inr (out, newt))"

section \<open>Tokencode generator\<close>

text \<open>The fields of \<open>struct tm\<close> that \<open>securid_compute_tokencode\<close> reads from the result
  of \<open>gmtime\<close>; they are not negative.\<close>

record tm =
  tm_year :: int
  tm_mon :: int
  tm_mday :: int
  tm_hour :: int
  tm_min :: int

text \<open>\<open>bcd_write\<close>: \<open>p\<close> is the index of \<open>*out\<close>, which starts at the last of the
  \<open>bytes\<close> bytes.\<close>

fun bcd_write_loop :: "byte list \<Rightarrow> nat \<Rightarrow> int \<Rightarrow> nat \<Rightarrow> byte list" where
  "bcd_write_loop out p val 0 = out"
| "bcd_write_loop out p val (Suc bytes) =
     (let out = out[p := of_int (val mod 10)];
          val = val div 10;
          out = out[p := out ! p OR push_bit 4 (of_int (val mod 10))];
          val = val div 10
      in bcd_write_loop out (p - 1) val bytes)"

definition bcd_write :: "byte list \<Rightarrow> nat \<Rightarrow> int \<Rightarrow> nat \<Rightarrow> byte list" where
  "bcd_write out off val bytes = bcd_write_loop out (off + bytes - 1) val bytes"

text \<open>\<open>key_from_time\<close> overwrites all 16 bytes of \<open>key\<close>.\<close>

definition key_from_time :: "byte list \<Rightarrow> nat \<Rightarrow> byte list \<Rightarrow> byte list" where
  "key_from_time bcd_time bcd_time_bytes ser =
     (let key = replicate 16 0;
          key = memset key 0 0xaa 8;
          key = memcpy key 0 bcd_time bcd_time_bytes;
          key = memset key 12 0xbb 4
      in memcpy key 8
           (map (\<lambda>i. push_bit 4 (ser ! i - 0x30) OR (ser ! (i + 1) - 0x30)) [4, 6, 8, 10]) 4)"

text \<open>The five rounds: the content of \<open>key0\<close> after the last \<open>aes128_ecb_encrypt\<close>.\<close>

definition tokencode_rounds :: "cipher \<Rightarrow> securid_token \<Rightarrow> tm \<Rightarrow> byte list" where
  "tokencode_rounds aes t gmt =
     (let bcd_time = replicate 8 0;
          bcd_time = bcd_write bcd_time 0 (tm_year gmt + 1900) 2;
          bcd_time = bcd_write bcd_time 2 (tm_mon gmt + 1) 1;
          bcd_time = bcd_write bcd_time 3 (tm_mday gmt) 1;
          bcd_time = bcd_write bcd_time 4 (tm_hour gmt) 1;
          bcd_time = bcd_write bcd_time 5 (tm_min gmt AND NOT 0x03) 1;
          bcd_time = bcd_time[6 := 0, 7 := 0];
          key0 = key_from_time bcd_time 2 (serial t);
          key0 = aes128_ecb_encrypt aes (dec_seed t) key0;
          key1 = key_from_time bcd_time 3 (serial t);
          key1 = aes128_ecb_encrypt aes key0 key1;
          key0 = key_from_time bcd_time 4 (serial t);
          key0 = aes128_ecb_encrypt aes key1 key0;
          key1 = key_from_time bcd_time 5 (serial t);
          key1 = aes128_ecb_encrypt aes key0 key1;
          key0 = key_from_time bcd_time 8 (serial t)
      in aes128_ecb_encrypt aes key1 key0)"

text \<open>The selection \<open>i = (gmt->tm_min & 0x03) << 2\<close> and the big-endian read of
  \<open>key0[i .. i + 3]\<close>.\<close>

definition tokencode_select :: "byte list \<Rightarrow> int \<Rightarrow> 32 word" where
  "tokencode_select key0 minute =
     (let i = nat (push_bit 2 (minute AND 0x03))
      in push_bit 24 (ucast (key0 ! (i + 0))) OR push_bit 16 (ucast (key0 ! (i + 1)))
         OR push_bit 8 (ucast (key0 ! (i + 2))) OR push_bit 0 (ucast (key0 ! (i + 3))))"

function pin_loop :: "nat \<Rightarrow> 32 word \<Rightarrow> byte list \<Rightarrow> byte list \<Rightarrow> byte list" where
  "pin_loop i tokencode pn code_out =
     (if i < 8 then
        let c = (ucast (tokencode mod 10) :: byte);
            tokencode = tokencode div 10;
            c = (if i < length pn then c + (pn ! (length pn - i - 1) - 0x30) else c);
            code_out = code_out[7 - i := c mod 10 + 0x30]
        in pin_loop (i + 1) tokencode pn code_out
      else code_out[8 := 0])"
  by pat_completeness auto
termination
  by (relation "measure (\<lambda>(i, tokencode, pn, code_out). 8 - i)") auto

declare pin_loop.simps [simp del]

definition securid_compute_tokencode :: "cipher \<Rightarrow> securid_token \<Rightarrow> tm \<Rightarrow> byte list \<Rightarrow> byte list" where
  "securid_compute_tokencode aes t gmt code_out =
     (let key0 = tokencode_rounds aes t gmt;
          tokencode = tokencode_select key0 (tm_min gmt)
      in pin_loop 0 tokencode (pin t) code_out)"

text \<open>The four-byte slice \<open>k\<close> of a block, read big-endian.\<close>

definition tokencode_slice :: "byte list \<Rightarrow> nat \<Rightarrow> 32 word" where
  "tokencode_slice key0 k =
     push_bit 24 (ucast (key0 ! (4 * k))) OR push_bit 16 (ucast (key0 ! (4 * k + 1)))
     OR push_bit 8 (ucast (key0 ! (4 * k + 2))) OR ucast (key0 ! (4 * k + 3))"

section \<open>PIN cryptor\<close>

definition securid_pin_format_ok :: "byte list \<Rightarrow> error" where
  "securid_pin_format_ok pn =
     (let rc = length pn in
      if rc < 4 \<or> rc > 8 then ERR_BAD_LEN
      else if \<not> list_all isdigit pn then ERR_GENERAL
      else ERR_NONE)"

text \<open>\<open>sprintf(..., "%02x", b)\<close>: two lower-case hexadecimal digits.\<close>

definition hexdigit :: "nat \<Rightarrow> byte" where
  "hexdigit n = (if n < 10 then 0x30 + of_nat n else 0x61 + of_nat (n - 10))"

definition sprintf_02x :: "byte \<Rightarrow> byte list" where
  "sprintf_02x b = [hexdigit (unat b div 16), hexdigit (unat b mod 16)]"

text \<open>
  \<open>securid_encrypt_pin\<close>: \<open>rnd\<close> is what \<open>securid_rand\<close> delivers, 16 bytes or a failure.
  The result is the string in the allocated buffer, or \<open>NULL\<close>; a failing \<open>malloc\<close> is not
  modelled.
\<close>

definition securid_encrypt_pin :: "cipher \<Rightarrow> byte list \<Rightarrow> byte list \<Rightarrow> byte list option
    \<Rightarrow> byte list option" where
  "securid_encrypt_pin aes pn password rnd =
     (if securid_pin_format_ok pn \<noteq> ERR_NONE then None
      else
        let buf = replicate 16 0;
            buf = memcpy buf 0 (pn @ [0]) (length pn + 1);
            buf = buf[15 := of_nat (length pn)];
            passhash = securid_mac aes password
        in case rnd of
             None \<Rightarrow> None
           | Some iv \<Rightarrow>
               let buf = map2 (XOR) buf iv;
                   buf = aes128_ecb_encrypt aes passhash buf
               in Some (concat (map sprintf_02x (take 16 iv)) @ concat (map sprintf_02x (take 16 buf))))"

text \<open>\<open>hex2byte\<close> on the two characters \<open>in[0]\<close>, \<open>in[1]\<close>; \<open>char\<close> is signed.\<close>

definition hex2byte :: "byte \<Rightarrow> byte \<Rightarrow> byte" where
  "hex2byte c0 c1 =
     (let ret = c1 - 0x30;
          hex_offs = 0x61 - 0x30 - 10;
          ret = (if ret > 9 then ret - hex_offs else ret)
      in if sint c0 > 0x39 then ret + push_bit 4 (c0 - hex_offs)
         else ret + push_bit 4 (c0 - 0x30))"

text \<open>
  \<open>securid_decrypt_pin\<close> returns its code and the caller's buffer \<open>pin\<close> as it stands at
  the return.
\<close>

definition securid_decrypt_pin :: "cipher \<Rightarrow> cipher \<Rightarrow> byte list \<Rightarrow> byte list \<Rightarrow> byte list
    \<Rightarrow> error \<times> byte list" where
  "securid_decrypt_pin aes aes_inv enc_pin password pn =
     (if length enc_pin \<noteq> 16 * 2 * 2 then (ERR_BAD_LEN, pn)
      else
        let iv = map (\<lambda>i. hex2byte (enc_pin ! (i * 2)) (enc_pin ! (i * 2 + 1))) [0..<16];
            buf = map (\<lambda>i. hex2byte (enc_pin ! ((i + 16) * 2)) (enc_pin ! ((i + 16) * 2 + 1))) [0..<16];
            passhash = securid_mac aes password;
            buf = aes128_ecb_decrypt aes_inv passhash buf;
            buf = map2 (XOR) buf iv
        in if buf ! 14 \<noteq> 0 \<or> unat (buf ! 15) \<noteq> length (cstring buf) then (ERR_GENERAL, pn)
           else if securid_pin_format_ok (cstring buf) \<noteq> ERR_NONE then (ERR_GENERAL, pn)
           else (ERR_NONE, memcpy pn 0 (cstring buf @ [0]) (length (cstring buf) + 1)))"

text \<open>The bytes of an optional string: none for \<open>NULL\<close>.\<close>

definition opt_bytes :: "byte list option \<Rightarrow> byte list" where
  "opt_bytes s = (case s of None \<Rightarrow> [] | Some bs \<Rightarrow> bs)"

text \<open>A decimal digit or one of the letters \<open>a\<close> to \<open>f\<close>.\<close>

definition lower_hex :: "byte \<Rightarrow> bool" where
  "lower_hex c \<longleftrightarrow> isdigit c \<or> (0x61 \<le> c \<and> c \<le> 0x66)"

section \<open>Notions used in the proofs about the bit codecs\<close>

text \<open>
  \<open>bit_at d k\<close> is bit \<open>k\<close> of the buffer \<open>d\<close>, counted as \<open>get_bits\<close> and \<open>set_bits\<close> count:
  bit 0 is the most significant bit of \<open>d[0]\<close>. \<open>dig3 d pos\<close> is the number written in the three
  bits of \<open>d\<close> from \<open>pos\<close> on, and \<open>dg inp t\<close> the value that \<open>numinput_to_bits\<close> decodes from the
  character \<open>inp[t]\<close>.
\<close>

definition bit_at :: "byte list \<Rightarrow> nat \<Rightarrow> bool" where
  "bit_at d k = bit (d ! (k div 8)) (7 - k mod 8)"

definition dig3 :: "byte list \<Rightarrow> nat \<Rightarrow> byte" where
  "dig3 d pos = push_bit 2 (of_bool (bit_at d pos)) OR push_bit 1 (of_bool (bit_at d (pos + 1)))
     OR of_bool (bit_at d (pos + 2))"

definition dg :: "byte list \<Rightarrow> nat \<Rightarrow> byte" where
  "dg inp t = (cstr_nth inp t - 0x30) AND 0x07"

section \<open>A sample run of the token codec\<close>




section \<open>Expiry\<close>

lemma wrap_int_id: "- (2 ^ 31) \<le> k \<Longrightarrow> k < 2 ^ 31 \<Longrightarrow> wrap_int k = k"
  by (simp add: wrap_int_def)

lemma wrap_time_t_id: "- (2 ^ 63) \<le> k \<Longrightarrow> k < 2 ^ 63 \<Longrightarrow> wrap_time_t k = k"
  by (simp add: wrap_time_t_def)

lemma sdiv_small: "\<bar>k\<bar> < l \<Longrightarrow> (k::int) sdiv l = 0"
  by (simp add: signed_divide_int_def)

lemma sdiv_day_bound:
  assumes "\<bar>d\<bar> < 2 ^ 31 * 86400"
  shows "- (2 ^ 31) < (d::int) sdiv 86400 \<and> d sdiv 86400 < 2 ^ 31"
proof -
  define a where "a = \<bar>d\<bar> div 86400"
  have "a \<le> (2 ^ 31 * 86400 - 1) div 86400"
    unfolding a_def using assms by (intro zdiv_mono1) simp_all
  then have a1: "a < 2 ^ 31" by simp
  have a0: "0 \<le> a" by (simp add: a_def pos_imp_zdiv_nonneg_iff)
  have "d sdiv 86400 = a \<or> d sdiv 86400 = - a"
    by (auto simp add: signed_divide_int_def sgn_if a_def)
  with a0 a1 show ?thesis by auto
qed

text \<open>
  Where nothing leaves its C type the wrap-arounds disappear: \<open>exp_date \<le> 13897\<close> keeps
  \<open>SECURID_EPOCH + (exp_date + 1) * 86400\<close> below \<open>2 ^ 31\<close>, and the bound on the distance to
  \<open>now\<close> keeps the quotient inside \<open>int\<close>.
\<close>

lemma check_exp_in_range:
  assumes e: "uint (exp_date t) \<le> 13897"
    and d: "\<bar>SECURID_EPOCH + (uint (exp_date t) + 1) * 86400 + 43200 - now\<bar> < 2 ^ 31 * 86400"
  shows "securid_check_exp w t now
           = (SECURID_EPOCH + (uint (exp_date t) + 1) * 86400 + 43200 - now) sdiv 86400"
proof -
  define e where "e = uint (exp_date t)"
  have e0: "0 \<le> e" "e \<le> 13897" using e by (simp_all add: e_def)
  have w1: "wrap_int (e + 1) = e + 1"
    using e0 by (intro wrap_int_id) simp_all
  have w2: "wrap_int ((e + 1) * 86400) = (e + 1) * 86400"
    using e0 by (intro wrap_int_id) simp_all
  have w3: "wrap_int (946684800 + (e + 1) * 86400) = 946684800 + (e + 1) * 86400"
    using e0 by (intro wrap_int_id) simp_all
  have w4: "wrap_time_t (946684800 + (e + 1) * 86400) = 946684800 + (e + 1) * 86400"
    using e0 by (intro wrap_time_t_id) simp_all
  have w5: "wrap_time_t (946684800 + (e + 1) * 86400 + 43200) = 946684800 + (e + 1) * 86400 + 43200"
    using e0 by (intro wrap_time_t_id) simp_all
  define dd where "dd = 946684800 + (e + 1) * 86400 + 43200 - now"
  have dd: "\<bar>dd\<bar> < 2 ^ 31 * 86400"
    using d by (simp add: dd_def e_def SECURID_EPOCH_def)
  have n: "- (2 ^ 63) \<le> now" "now < 2 ^ 63"
    using dd e0 by (simp_all add: dd_def)
  have w6: "wrap_time_t now = now"
    using n by (rule wrap_time_t_id)
  have w7: "wrap_time_t dd = dd"
    using dd by (intro wrap_time_t_id) simp_all
  have w8: "wrap_int (dd sdiv 86400) = dd sdiv 86400"
    using sdiv_day_bound [OF dd] by (intro wrap_int_id) simp_all
  have "securid_check_exp w t now = dd sdiv 86400"
    unfolding securid_check_exp_def Let_def SECURID_EPOCH_def e_def [symmetric]
    using w1 w2 w3 w4 w5 w6 w7 w8 by (simp add: dd_def)
  then show ?thesis
    by (simp add: dd_def e_def SECURID_EPOCH_def)
qed

text \<open>
  C5, as the spec states it (for every token and every time \<open>now\<close> the function returns
  \<open>((SECURID_EPOCH + (exp_date + 1) * 86400 + 43200) - now) / 86400\<close>, and 0, 0 and a negative
  value at the three instants), fails where the \<open>int\<close> arithmetic of the code overflows.

  \<^item> With an \<open>int\<close> epoch constant and \<open>exp_date = 13898\<close> (a value of the 14-bit field of a
    token string) the sum \<open>SECURID_EPOCH + 13899 * 86400\<close> exceeds \<open>2 ^ 31 - 1\<close>: at
    \<open>now = 1700000000\<close> the code returns -44529 where the formula gives 5180.
  \<^item> Whatever the type of the epoch constant, \<open>exp_date = 65535\<close> overflows the product
    \<open>(exp_date + 1) * wholeday\<close>: at \<open>now = 0\<close> the code returns 26783 (wide epoch) or -22927
    (\<open>int\<close> epoch) where the formula gives 76493.
  \<^item> At the first instant of the boundary case, \<open>now = SECURID_EPOCH + (exp_date + 1) * 86400 +
    12 * 3600 - 1\<close>, the code returns -49710 instead of 0 for \<open>exp_date = 24855\<close> (wide epoch)
    and for \<open>exp_date = 13898\<close> (\<open>int\<close> epoch).
  \<^item> The quotient is narrowed to \<open>int\<close>: for \<open>exp_date = 5000\<close> and \<open>now = - (2 ^ 62)\<close> the code
    returns -1857955080 where the formula gives 53375995599608.
\<close>

theorem check_exp_overflows_int:
  "securid_check_exp False (zero_token\<lparr>exp_date := 13898\<rparr>) 1700000000 = - 44529
   \<and> (SECURID_EPOCH + (uint (exp_date (zero_token\<lparr>exp_date := 13898\<rparr>)) + 1) * 86400 + 43200
        - 1700000000) sdiv 86400 = 5180
   \<and> securid_check_exp True (zero_token\<lparr>exp_date := 65535\<rparr>) 0 = 26783
   \<and> securid_check_exp False (zero_token\<lparr>exp_date := 65535\<rparr>) 0 = - 22927
   \<and> (SECURID_EPOCH + (uint (exp_date (zero_token\<lparr>exp_date := 65535\<rparr>)) + 1) * 86400 + 43200
        - 0) sdiv 86400 = 76493
   \<and> securid_check_exp True (zero_token\<lparr>exp_date := 24855\<rparr>)
        (SECURID_EPOCH + (uint (exp_date (zero_token\<lparr>exp_date := 24855\<rparr>)) + 1) * 86400
           + 12 * 3600 - 1) = - 49710
   \<and> securid_check_exp False (zero_token\<lparr>exp_date := 13898\<rparr>)
        (SECURID_EPOCH + (uint (exp_date (zero_token\<lparr>exp_date := 13898\<rparr>)) + 1) * 86400
           + 12 * 3600 - 1) = - 49710
   \<and> securid_check_exp True (zero_token\<lparr>exp_date := 5000\<rparr>) (- (2 ^ 62)) = - 1857955080
   \<and> (SECURID_EPOCH + (uint (exp_date (zero_token\<lparr>exp_date := 5000\<rparr>)) + 1) * 86400 + 43200
        - (- (2 ^ 62))) sdiv 86400 = 53375995599608"
  by code_simp

text \<open>
  C5, amended. For every token with \<open>exp_date \<le> 13897\<close> and every time \<open>now\<close> whose distance
  to \<open>X = SECURID_EPOCH + (exp_date + 1) * 86400 + 12 * 3600\<close> is less than \<open>2 ^ 31\<close> days,
  whatever the C type of the epoch constant, \<open>securid_check_exp\<close> returns
  \<open>((SECURID_EPOCH + (exp_date + 1) * 86400 + 43200) - now) / 86400\<close> under truncating signed
  division. For such a token it returns 0 at \<open>now = X - 1\<close>, it still returns 0 one second
  later (\<open>now = X\<close>), and one full day after that second instant (\<open>now = X + 86400\<close>) it returns
  the negative value -1. One full day after the first instant (\<open>now = X - 1 + 86400\<close>) it
  still returns 0, because the division truncates towards zero.
\<close>

theorem check_exp_formula_and_boundary:
  fixes t :: securid_token
  defines "X \<equiv> SECURID_EPOCH + (uint (exp_date t) + 1) * 86400 + 12 * 3600"
  assumes e: "uint (exp_date t) \<le> 13897"
  shows "(\<bar>X - now\<bar> < 2 ^ 31 * 86400 \<longrightarrow>
            securid_check_exp w t now
              = ((SECURID_EPOCH + (uint (exp_date t) + 1) * 86400 + 43200) - now) sdiv 86400)
         \<and> securid_check_exp w t (X - 1) = 0
         \<and> securid_check_exp w t (X - 1 + 1) = 0
         \<and> securid_check_exp w t (X - 1 + 1 + 86400) = - 1
         \<and> securid_check_exp w t (X - 1 + 1 + 86400) < 0
         \<and> securid_check_exp w t (X - 1 + 86400) = 0"
proof -
  have f: "securid_check_exp w t (X + k) = (- k) sdiv 86400" if "\<bar>k\<bar> < 2 ^ 31 * 86400" for k
    using that check_exp_in_range [OF e, of "X + k" w] by (simp add: X_def)
  have "securid_check_exp w t (X - 1) = 0"
    using f [of "- 1"] by (simp add: sdiv_small)
  moreover have "securid_check_exp w t (X - 1 + 1) = 0"
    using f [of 0] by simp
  moreover have "securid_check_exp w t (X - 1 + 1 + 86400) = - 1"
    using f [of 86400] by (simp add: signed_divide_int_def)
  moreover have "securid_check_exp w t (X - 1 + 86400) = 0"
    using f [of 86399] by (simp add: sdiv_small add.commute)
  moreover have "securid_check_exp w t now
      = ((SECURID_EPOCH + (uint (exp_date t) + 1) * 86400 + 43200) - now) sdiv 86400"
    if "\<bar>X - now\<bar> < 2 ^ 31 * 86400"
    using that check_exp_in_range [OF e, of now w] by (simp add: X_def)
  ultimately show ?thesis by simp
qed

theorem check_exp_formula_and_boundary_witness:
  "uint (exp_date (zero_token\<lparr>exp_date := 5000\<rparr>)) \<le> 13897
   \<and> \<bar>SECURID_EPOCH + (uint (exp_date (zero_token\<lparr>exp_date := 5000\<rparr>)) + 1) * 86400 + 12 * 3600
        - 1300000000\<bar> < 2 ^ 31 * 86400
   \<and> securid_check_exp False (zero_token\<lparr>exp_date := 5000\<rparr>) 1300000000 = 912
   \<and> securid_check_exp False (zero_token\<lparr>exp_date := 5000\<rparr>) 1378814399 = 0
   \<and> securid_check_exp False (zero_token\<lparr>exp_date := 5000\<rparr>) 1378814400 = 0
   \<and> securid_check_exp False (zero_token\<lparr>exp_date := 5000\<rparr>) 1378900800 = - 1
   \<and> securid_check_exp False (zero_token\<lparr>exp_date := 5000\<rparr>) 1378900799 = 0"
  using check_exp_formula_and_boundary [of "zero_token\<lparr>exp_date := 5000\<rparr>" 1300000000 False]
  by (simp add: SECURID_EPOCH_def zero_token_def signed_divide_int_def)

text \<open>
  In that range the result is negative exactly from one whole day past the grace period on.
\<close>

lemma check_exp_negative_iff:
  assumes e: "uint (exp_date t) \<le> 13897"
    and d: "\<bar>SECURID_EPOCH + (uint (exp_date t) + 1) * 86400 + 43200 - now\<bar> < 2 ^ 31 * 86400"
  shows "securid_check_exp w t now < 0
     \<longleftrightarrow> SECURID_EPOCH + (uint (exp_date t) + 1) * 86400 + 43200 + 86400 \<le> now"
proof -
  define d where "d = SECURID_EPOCH + (uint (exp_date t) + 1) * 86400 + 43200 - now"
  have "d sdiv 86400 < 0 \<longleftrightarrow> d \<le> - 86400"
  proof (cases "0 \<le> d")
    case True
    then have "0 \<le> d sdiv 86400"
      by (simp add: signed_divide_int_def sgn_if pos_imp_zdiv_nonneg_iff)
    with True show ?thesis by simp
  next
    case False
    then have "d sdiv 86400 = - (- d div 86400)"
      by (simp add: signed_divide_int_def sgn_if)
    moreover have "0 < - d div 86400 \<longleftrightarrow> 86400 \<le> - d"
      by (simp add: pos_imp_zdiv_pos_iff)
    ultimately show ?thesis by auto
  qed
  moreover have "securid_check_exp w t now = d sdiv 86400"
    using check_exp_in_range [OF assms, of w] by (simp add: d_def)
  ultimately show ?thesis
    unfolding d_def by linarith
qed

section \<open>PIN mode\<close>

text \<open>
  C7. \<open>securid_pin_required\<close> should hold exactly when the two-bit PIN mode that
  \<open>securid_token_info\<close> reports is at least 2. With the two-bit field at bit 3
  (mask \<open>0x18\<close>) and \<open>flags = 0x18\<close>, the reported PIN mode is 3 and
  \<open>securid_pin_required\<close> is false.
\<close>

theorem pin_required_misses_pinmode_3:
  "token_info_pin_mode stoken_h (flags_token 0x18) = 3
   \<and> \<not> securid_pin_required stoken_h (flags_token 0x18)"
  by (simp add: token_info_pin_mode_def securid_pin_required_def stoken_h_def flags_token_def)

text \<open>
  The same for every header that places the two-bit field at a bit position from 2 to 14:
  a token whose PIN mode is 3 is reported as not requiring a PIN.
\<close>

lemma pin_required_shift_mask_swapped:
  assumes "FLD_PINMODE_MASK h = push_bit (FLD_PINMODE_SHIFT h) 3"
    and "2 \<le> FLD_PINMODE_SHIFT h" and "FLD_PINMODE_SHIFT h \<le> 14"
    and "flags t = FLD_PINMODE_MASK h"
  shows "token_info_pin_mode h t = 3 \<and> \<not> securid_pin_required h t"
proof -
  define s where "s = FLD_PINMODE_SHIFT h"
  have s: "2 \<le> s" "s \<le> 14" using assms by (simp_all add: s_def)
  have three: "bit (3 :: int) n \<longleftrightarrow> n < 2" for n
  proof -
    have "(3 :: int) = mask 2" by (simp add: mask_eq_exp_minus_1)
    then show ?thesis by (simp only: bit_mask_iff) auto
  qed
  have a: "drop_bit s (push_bit s (3 :: 16 word)) = 3"
    using s by - (rule bit_word_eqI, auto simp add: bit_simps three)
  have b: "(3 :: 16 word) AND push_bit s 3 = 0"
    using s by - (rule bit_word_eqI, auto simp add: bit_simps three)
  show ?thesis
    using assms a b
    by (simp add: token_info_pin_mode_def securid_pin_required_def s_def [symmetric])
qed

section \<open>The absorption order of the MAC\<close>

lemma d1: "r < 16 \<Longrightarrow> (16 * q + r) div 16 = (q::nat)"
  by simp
lemma d2: "0 < r \<Longrightarrow> r < 16 \<Longrightarrow> (16 * q + r - 1) div 16 = (q::nat)"
proof -
  assume "0 < r" "r < 16"
  then have "16 * q + r - 1 = 16 * q + (r - 1)" "r - 1 < 16" by simp_all
  then show ?thesis by (simp only: d1)
qed
lemma d3: "(16 * Suc m - 1) div 16 = m"
proof -
  have "16 * Suc m - 1 = 16 * m + 15" by simp
  then show ?thesis by (simp only: d1)
qed
lemma d4: "(16 * Suc m) mod 32 = 16 \<longleftrightarrow> even m"
proof (cases "even m")
  case True
  then obtain j where "m = 2 * j" by (elim evenE)
  then have "16 * Suc m = 16 + 32 * j" by simp
  then have "16 * Suc m mod 32 = 16" by (simp only: mod_mult_self2) simp
  with True show ?thesis by simp
next
  case False
  then obtain j where "m = 2 * j + 1" by (elim oddE)
  then have "16 * Suc m = 32 * (j + 1)" by simp
  then have "16 * Suc m mod 32 = 0" by (simp only: mod_mult_self1_is_0)
  with False show ?thesis by simp
qed
lemma d5: "0 < r \<Longrightarrow> r < 16 \<Longrightarrow> (16 * q + r) mod 32 \<noteq> (16::nat)"
proof
  assume r: "0 < r" "r < 16" and e: "(16 * q + r) mod 32 = 16"
  have "(16 * q + r) mod 16 = ((16 * q + r) mod 32) mod 16"
    by (simp add: mod_mod_cancel)
  with e have "(16 * q + r) mod 16 = 0" by simp
  with r show False by simp
qed



lemma mac_bulk_fold:
  "mac_bulk aes inp work parity =
     (case mac_bulk_blocks inp parity of
        (bs, rest, parity') \<Rightarrow> (rest, foldl (\<lambda>w b. encrypt_then_xor aes b w) work bs, parity'))"
proof (induction aes inp work parity rule: mac_bulk.induct)
  case (1 aes inp work parity)
  show ?case
  proof (cases "length inp > 16")
    case True
    then show ?thesis
      using "1.IH" [OF True]
      by (subst mac_bulk.simps, subst mac_bulk_blocks.simps) (simp split: prod.splits)
  next
    case False
    then show ?thesis
      by (subst mac_bulk.simps, subst mac_bulk_blocks.simps) simp
  qed
qed

lemma securid_mac_fold:
  "securid_mac aes inp =
     mac_tighten aes (foldl (\<lambda>w b. encrypt_then_xor aes b w) (replicate 16 0xff) (securid_mac_blocks inp))"
  unfolding securid_mac_def securid_mac_blocks_def mac_tighten_def Let_def mac_bulk_fold
  by (simp split: prod.splits)

lemma mac_bulk_blocks_closed:
  "mac_bulk_blocks inp parity =
     (map (\<lambda>j. take 16 (drop (16 * j) inp)) [0..<(length inp - 1) div 16],
      drop (16 * ((length inp - 1) div 16)) inp,
      parity \<noteq> odd ((length inp - 1) div 16))"
proof (induction inp parity rule: mac_bulk_blocks.induct)
  case (1 inp parity)
  show ?case
  proof (cases "length inp > 16")
    case True
    define k where "k = (length inp - 17) div 16"
    have k: "(length inp - 1) div 16 = Suc k"
      using True unfolding k_def by linarith
    have k': "(length (drop 16 inp) - 1) div 16 = k"
      using True unfolding k_def by simp
    have "[0..<Suc k] = 0 # map Suc [0..<k]"
      by (simp add: upt_conv_Cons map_Suc_upt del: upt_Suc)
    then have m: "map (\<lambda>j. take 16 (drop (16 * j) inp)) [0..<Suc k]
        = take 16 inp # map (\<lambda>j. take 16 (drop (16 * j) (drop 16 inp))) [0..<k]"
      by (simp add: comp_def add.commute del: upt_Suc)
    have ih: "mac_bulk_blocks (drop 16 inp) (\<not> parity) =
        (map (\<lambda>j. take 16 (drop (16 * j) (drop 16 inp))) [0..<k],
         drop (16 * k) (drop 16 inp), (\<not> parity) \<noteq> odd k)"
      using "1.IH" [OF True] unfolding k' .
    have "mac_bulk_blocks inp parity =
        (take 16 inp # map (\<lambda>j. take 16 (drop (16 * j) (drop 16 inp))) [0..<k],
         drop (16 * k) (drop 16 inp), (\<not> parity) \<noteq> odd k)"
      by (subst mac_bulk_blocks.simps) (simp add: True ih)
    also have "\<dots> = (map (\<lambda>j. take 16 (drop (16 * j) inp)) [0..<Suc k],
         drop (16 * Suc k) inp, parity \<noteq> odd (Suc k))"
      unfolding m by (auto simp add: add.commute)
    finally show ?thesis unfolding k .
  next
    case False
    then have "(length inp - 1) div 16 = 0" by simp
    with False show ?thesis
      by (subst mac_bulk_blocks.simps) simp
  qed
qed


lemma memcpy_lastblk: "length rest \<le> 16 \<Longrightarrow>
  memcpy (replicate 16 0) 0 rest (length rest) = rest @ replicate (16 - length rest) 0"
  by (simp add: memcpy_def)

lemma securid_mac_blocks_closed:
  "securid_mac_blocks inp =
     map (\<lambda>j. take 16 (drop (16 * j) inp)) [0..<(length inp - 1) div 16]
     @ [drop (16 * ((length inp - 1) div 16)) inp
          @ replicate (16 - length (drop (16 * ((length inp - 1) div 16)) inp)) 0]
     @ (if odd ((length inp - 1) div 16) then [replicate 16 0] else [])
     @ [mac_pad_loop (length inp * 8) 15 (replicate 16 0)]"
  by (simp add: securid_mac_blocks_def mac_bulk_blocks_closed memcpy_def)



lemma mac_blocks_agree_iff:
  "spec_mac_blocks inp = securid_mac_blocks inp \<longleftrightarrow> length inp mod 32 \<noteq> 16"
proof -
  define n where "n = length inp div 16"
  define r where "r = length inp mod 16"
  define f where "f = (\<lambda>j. take 16 (drop (16 * j) inp))"
  define pad where "pad = mac_pad_loop (length inp * 8) 15 (replicate 16 0)"
  define z where "z = replicate 16 (0::byte)"
  have L: "length inp = 16 * n + r" and r: "r < 16"
    by (simp_all add: n_def r_def)
  have spec: "spec_mac_blocks inp = map f [0..<n] @ [drop (16 * n) inp @ replicate (16 - length (drop (16 * n) inp)) 0]
     @ (if odd n then [z] else []) @ [pad]"
    by (simp add: spec_mac_blocks_def Let_def n_def f_def pad_def z_def)
  have code: "securid_mac_blocks inp = map f [0..<(length inp - 1) div 16]
     @ [drop (16 * ((length inp - 1) div 16)) inp
          @ replicate (16 - length (drop (16 * ((length inp - 1) div 16)) inp)) 0]
     @ (if odd ((length inp - 1) div 16) then [z] else []) @ [pad]"
    unfolding securid_mac_blocks_closed f_def pad_def z_def ..
  show ?thesis
  proof (cases "r = 0")
    case False
    then have "(length inp - 1) div 16 = n" "length inp mod 32 \<noteq> 16"
      using r d2 [of r n] d5 [of r n] unfolding L by simp_all
    then show ?thesis unfolding spec code by simp
  next
    case c: True
    show ?thesis
    proof (cases n)
      case 0
      with c L have "length inp = 0" by simp
      then show ?thesis unfolding spec code n_def by simp
    next
      case (Suc m)
      have len: "length inp = 16 * Suc m" using L c Suc by simp
      have k: "(length inp - 1) div 16 = m" unfolding len by (rule d3)
      have last: "drop (16 * m) inp = f m"
        unfolding f_def using len by simp
      have lf: "length (f m) = 16" unfolding f_def using len by simp
      have e: "drop (16 * Suc m) inp = []" using len by simp
      have spec': "spec_mac_blocks inp = map f [0..<Suc m] @ [z] @ (if even m then [z] else []) @ [pad]"
        unfolding spec Suc e by (simp add: z_def)
      have code': "securid_mac_blocks inp = map f [0..<Suc m] @ (if odd m then [z] else []) @ [pad]"
        unfolding code k last by (simp add: lf)
      have "length inp mod 32 = 16 \<longleftrightarrow> even m" unfolding len by (rule d4)
      moreover have "spec_mac_blocks inp = securid_mac_blocks inp \<longleftrightarrow> odd m"
        unfolding spec' code' by auto
      ultimately show ?thesis by simp
    qed
  qed
qed

text \<open>
  C1 (as stated). The claim has \<open>securid_mac\<close> absorb every full 16-byte block, then the
  zero-padded final partial block, then a zero block when the number of full blocks is odd.
  For an input of one full block (16 zero bytes) that would be four blocks; the code absorbs
  two: the bulk loop runs while \<open>in_len > 16\<close>, so the last full block is the final block.
\<close>

theorem spec_mac_order_fails_at_16_bytes:
  "securid_mac_blocks (replicate 16 0) \<noteq> spec_mac_blocks (replicate 16 0)"
  by (simp add: securid_mac_blocks_def spec_mac_blocks_def memcpy_def mac_bulk_blocks.simps)

text \<open>
  C1 (amended). For every input, \<open>securid_mac\<close> absorbs, in this order: the leading 16-byte
  blocks while more than 16 bytes remain, \<open>(in_len - 1) div 16\<close> of them; the remaining final
  block of at most 16 bytes, padded with zeroes; an all-zero block exactly when the number of
  leading blocks is odd; the length-padding block; and its result is the tightening step
  \<open>AES(work, work) XOR work\<close> of the work block so obtained. This is the order the claim
  states exactly when the input length is not an odd multiple of 16.
\<close>

theorem securid_mac_absorption_order:
  "securid_mac_blocks inp =
     map (\<lambda>j. take 16 (drop (16 * j) inp)) [0..<(length inp - 1) div 16]
     @ [drop (16 * ((length inp - 1) div 16)) inp
          @ replicate (16 - length (drop (16 * ((length inp - 1) div 16)) inp)) 0]
     @ (if odd ((length inp - 1) div 16) then [replicate 16 0] else [])
     @ [mac_pad_loop (length inp * 8) 15 (replicate 16 0)]
   \<and> securid_mac aes inp =
     mac_tighten aes (foldl (\<lambda>w b. encrypt_then_xor aes b w) (replicate 16 0xff)
       (securid_mac_blocks inp))
   \<and> mac_tighten aes work = map2 (XOR) work (aes128_ecb_encrypt aes work work)
   \<and> (spec_mac_blocks inp = securid_mac_blocks inp) = (length inp mod 32 \<noteq> 16)"
  using securid_mac_blocks_closed [of inp] securid_mac_fold [of aes inp] mac_blocks_agree_iff [of inp]
  by (simp add: mac_tighten_def encrypt_then_xor_def)

section \<open>Selection of the tokencode\<close>

lemma minute_and_3: "(m::int) AND 0x03 = m mod 4"
proof -
  have "m AND mask 2 = m mod 4"
    by (simp add: take_bit_eq_mod flip: take_bit_eq_mask)
  moreover have "mask 2 = (3::int)" by (simp add: mask_eq_exp_minus_1)
  ultimately show ?thesis by simp
qed

lemma select_index: "nat (push_bit 2 ((m::int) AND 0x03)) = 4 * nat (m mod 4)"
  by (simp add: minute_and_3 push_bit_eq_mult nat_mult_distrib)

lemma tokencode_select_slice: "tokencode_select key0 m = tokencode_slice key0 (nat (m mod 4))"
  unfolding tokencode_select_def tokencode_slice_def Let_def select_index by simp

lemma minute_round_down: "(m::int) AND NOT 0x03 = m - m mod 4"
proof -
  have "m AND NOT (mask 2) = push_bit 2 (drop_bit 2 m)"
  proof (rule bit_eqI)
    fix n :: nat
    have "2 \<le> n \<Longrightarrow> 2 + (n - 2) = n" by simp
    then show "bit (m AND NOT (mask 2)) n \<longleftrightarrow> bit (push_bit 2 (drop_bit 2 m)) n"
      by (auto simp add: bit_and_iff bit_not_iff bit_mask_iff bit_push_bit_iff bit_drop_bit_eq not_less)
  qed
  moreover have "mask 2 = (3::int)" by (simp add: mask_eq_exp_minus_1)
  moreover have "push_bit 2 (drop_bit 2 m) = m - m mod 4"
    by (simp add: push_bit_eq_mult drop_bit_eq_div minus_mod_eq_mult_div [symmetric] mult.commute)
  ultimately show ?thesis by simp
qed

lemma tokencode_rounds_minute:
  "tokencode_rounds aes t (gmt\<lparr>tm_min := m\<rparr>) = tokencode_rounds aes t (gmt\<lparr>tm_min := m - m mod 4\<rparr>)"
proof -
  have "(m - m mod 4) AND NOT 0x03 = m AND NOT 0x03"
    unfolding minute_round_down by (simp add: minus_mod_eq_mult_div [symmetric])
  then show ?thesis
    by (simp add: tokencode_rounds_def)
qed

text \<open>
  C4 (as stated). The claim has minute 3 select slice 0 of the final round's output. On the
  block \<open>0, 1, \<dots>, 15\<close> minute 3 selects the bytes 12 to 15, not the bytes 0 to 3.
\<close>

theorem minute_3_does_not_select_slice_0:
  "tokencode_select (map of_nat [0..<16]) 3 \<noteq> tokencode_slice (map of_nat [0..<16]) 0"
  by (simp add: tokencode_select_def tokencode_slice_def upt_rec)

text \<open>
  C4 (amended). For every token, cipher and broken-down time, \<open>securid_compute_tokencode\<close>
  takes the four-byte slice \<open>tm_min mod 4\<close> of the final round's output: minutes 0, 3, 4 and 7
  select the slices 0, 3, 0 and 3. The rounding down to a multiple of 4 applies to the minute
  that enters the time key: minutes 3 and 0, and minutes 7 and 4, give the same final round
  output.
\<close>

theorem tokencode_slice_is_minute_mod_4:
  "tokencode_select key0 0 = tokencode_slice key0 0
   \<and> tokencode_select key0 3 = tokencode_slice key0 3
   \<and> tokencode_select key0 4 = tokencode_slice key0 0
   \<and> tokencode_select key0 7 = tokencode_slice key0 3
   \<and> securid_compute_tokencode aes t gmt code_out =
       pin_loop 0 (tokencode_slice (tokencode_rounds aes t gmt) (nat (tm_min gmt mod 4)))
         (pin t) code_out
   \<and> tokencode_rounds aes t (gmt\<lparr>tm_min := 3\<rparr>) = tokencode_rounds aes t (gmt\<lparr>tm_min := 0\<rparr>)
   \<and> tokencode_rounds aes t (gmt\<lparr>tm_min := 7\<rparr>) = tokencode_rounds aes t (gmt\<lparr>tm_min := 4\<rparr>)"
  using tokencode_rounds_minute [of aes t 3 gmt] tokencode_rounds_minute [of aes t 7 gmt]
  by (simp add: tokencode_select_slice securid_compute_tokencode_def)

section \<open>The key hash\<close>

lemma devid_loop_result:
  assumes "len \<le> L + 1" and "pos + length (filter (devid_char_ok sp) dv) \<le> length key"
  shows "devid_loop sp L dv len pos key =
    (if len + length (filter (devid_char_ok sp) dv) > L + 1 then Inl ERR_BAD_PASSWORD
     else Inr (take pos key @ filter (devid_char_ok sp) dv
                 @ drop (pos + length (filter (devid_char_ok sp) dv)) key,
               pos + length (filter (devid_char_ok sp) dv)))"
  using assms
proof (induction dv arbitrary: len pos key)
  case Nil
  then show ?case by simp
next
  case (Cons c dv)
  show ?case
  proof (cases "devid_char_ok sp c")
    case False
    with Cons show ?thesis by simp
  next
    case ok: True
    show ?thesis
    proof (cases "len > L")
      case True
      with ok show ?thesis by simp
    next
      case False
      then have l: "len + 1 \<le> L + 1" by simp
      from Cons.prems ok have p: "pos < length key"
        and p': "(pos + 1) + length (filter (devid_char_ok sp) dv) \<le> length (key[pos := c])"
        by simp_all
      have "take (pos + 1) (key[pos := c]) = take pos key @ [c]"
        using p by (simp add: take_Suc_conv_app_nth)
      moreover have "drop (pos + 1 + n) (key[pos := c]) = drop (pos + 1 + n) key" for n
        by simp
      ultimately show ?thesis
        using Cons.IH [OF l p'] ok False by simp
    qed
  qed
qed

lemma devid_loop_too_many:
  assumes "len \<le> L + 1" and "len + length (filter (devid_char_ok sp) dv) > L + 1"
  shows "devid_loop sp L dv len pos key = Inl ERR_BAD_PASSWORD"
  using assms
proof (induction dv arbitrary: len pos key)
  case Nil
  then show ?case by simp
next
  case (Cons c dv)
  then show ?case by (cases "devid_char_ok sp c"; cases "len > L") simp_all
qed

lemma key_fill_result:
  assumes "40 \<le> DEVID_CHARS h"
  shows "key_fill h pass devid sp =
    (let pw = opt_bytes pass; ds = filter (devid_char_ok sp) (opt_bytes devid);
         devid_len = (if sp then 40 else 32)
     in if length pw > MAX_PASS h \<or> length ds > devid_len + 1 then Inl ERR_BAD_PASSWORD
        else Inr (pw @ ds @ replicate (MAX_PASS h + DEVID_CHARS h + 8 - length pw - length ds) 0,
                  length pw, length pw + length ds))"
proof -
  define N where "N = MAX_PASS h + DEVID_CHARS h + 7 + 1"
  define L :: nat where "L = (if sp then 40 else 32)"
  define pw where "pw = opt_bytes pass"
  define ds where "ds = filter (devid_char_ok sp) (opt_bytes devid)"
  have L: "L \<le> 40" by (simp add: L_def)
  have first: "(case pass of None \<Rightarrow> Inr (replicate N 0, 0)
               | Some pw \<Rightarrow> if length pw > MAX_PASS h then Inl ERR_BAD_PASSWORD
                            else Inr (memcpy (replicate N 0) 0 pw (length pw), length pw))
     = (if length pw > MAX_PASS h then Inl ERR_BAD_PASSWORD
        else Inr (pw @ replicate (N - length pw) 0, length pw))"
    by (cases pass) (simp_all add: pw_def opt_bytes_def memcpy_def)
  show ?thesis
  proof (cases "length pw > MAX_PASS h")
    case True
    then show ?thesis
      unfolding key_fill_def Let_def N_def [symmetric] first
      by (simp add: pw_def)
  next
    case False
    define key where "key = pw @ replicate (N - length pw) 0"
    have lk: "length key = N" using False by (simp add: key_def N_def)
    have second: "(case devid of None \<Rightarrow> Inr (key, length pw)
                    | Some dv \<Rightarrow> devid_loop sp L dv 0 (length pw) key)
      = (if length ds > L + 1 then Inl ERR_BAD_PASSWORD
         else Inr (pw @ ds @ replicate (N - length pw - length ds) 0, length pw + length ds))"
    proof (cases devid)
      case None
      then show ?thesis by (simp add: ds_def opt_bytes_def key_def)
    next
      case (Some dv)
      then have ds: "ds = filter (devid_char_ok sp) dv" by (simp add: ds_def opt_bytes_def)
      show ?thesis
      proof (cases "length ds > L + 1")
        case True
        have "devid_loop sp L dv 0 (length pw) key = Inl ERR_BAD_PASSWORD"
          using devid_loop_too_many [of 0 L sp dv "length pw" key] True by (simp add: ds)
        with True Some show ?thesis by simp
      next
        case nf: False
        then have "length pw + length (filter (devid_char_ok sp) dv) \<le> length key"
          using False L assms unfolding lk N_def ds by linarith
        from devid_loop_result [OF _ this, of 0 L] nf
        show ?thesis using Some False
          by (simp add: ds [symmetric] key_def)
      qed
    qed
    have "key_fill h pass devid sp =
        (case (case pass of None \<Rightarrow> Inr (replicate N 0, 0)
               | Some pw \<Rightarrow> if length pw > MAX_PASS h then Inl ERR_BAD_PASSWORD
                            else Inr (memcpy (replicate N 0) 0 pw (length pw), length pw)) of
           Inl e \<Rightarrow> Inl e
         | Inr (key, pos0) \<Rightarrow>
             (case (case devid of None \<Rightarrow> Inr (key, pos0)
                    | Some dv \<Rightarrow> devid_loop sp L dv 0 pos0 key) of
                Inl e \<Rightarrow> Inl e
              | Inr (key, pos) \<Rightarrow> Inr (key, pos0, pos)))"
      unfolding key_fill_def Let_def N_def L_def by (rule refl)
    also have "\<dots> = (case (case devid of None \<Rightarrow> Inr (key, length pw)
                    | Some dv \<Rightarrow> devid_loop sp L dv 0 (length pw) key) of
                Inl e \<Rightarrow> Inl e
              | Inr (key, pos) \<Rightarrow> Inr (key, length pw, pos))"
      unfolding first key_def using False by simp
    also have "\<dots> = (if length ds > L + 1 then Inl ERR_BAD_PASSWORD
         else Inr (pw @ ds @ replicate (N - length pw - length ds) 0, length pw, length pw + length ds))"
      unfolding second by simp
    finally show ?thesis
      using False by (auto simp add: Let_def pw_def [symmetric] ds_def [symmetric] L_def N_def)
  qed
qed
lemma key_hash_input_result:
  assumes "40 \<le> DEVID_CHARS h"
  shows "key_hash_input h pass devid sp =
    (let pw = opt_bytes pass; ds = filter (devid_char_ok sp) (opt_bytes devid);
         devid_len = (if sp then 40 else 32)
     in if length pw > MAX_PASS h \<or> length ds > devid_len + 1 then Inl ERR_BAD_PASSWORD
        else Inr (pw @ ds @ magic))"
proof -
  have m: "length magic = 7" by (simp add: magic_def)
  show ?thesis
    unfolding key_hash_input_def key_fill_result [OF assms] Let_def
    using assms by (auto simp add: memcpy_def m)
qed

lemma generate_key_hash_result:
  assumes "40 \<le> DEVID_CHARS h"
  shows "generate_key_hash aes h pass devid sp =
    (let pw = opt_bytes pass; ds = filter (devid_char_ok sp) (opt_bytes devid);
         devid_len = (if sp then 40 else 32)
     in if length pw > MAX_PASS h \<or> length ds > devid_len + 1 then Inl ERR_BAD_PASSWORD
        else Inr (securid_mac aes (pw @ ds @ magic),
                  securid_shortmac aes (take devid_len (ds @ replicate (devid_len - length ds) 0))))"
proof -
  have m: "length magic = 7" by (simp add: magic_def)
  show ?thesis
    unfolding generate_key_hash_def key_fill_result [OF assms] Let_def
    using assms by (auto simp add: memcpy_def m)
qed

lemma generate_key_hash_fails_iff:
  assumes "40 \<le> DEVID_CHARS h"
  shows "(\<exists>e. generate_key_hash aes h pass devid sp = Inl e)
           = (generate_key_hash aes h pass devid sp = Inl ERR_BAD_PASSWORD)"
    and "(generate_key_hash aes h pass devid sp = Inl ERR_BAD_PASSWORD)
           = (length (opt_bytes pass) > MAX_PASS h
              \<or> length (filter (devid_char_ok sp) (opt_bytes devid)) > (if sp then 40 else 32) + 1)"
  unfolding generate_key_hash_result [OF assms] Let_def by auto

lemma last_mac_block:
  "last (securid_mac_blocks inp) = mac_pad_loop (length inp * 8) 15 (replicate 16 0)"
  by (simp add: securid_mac_blocks_closed)

text \<open>
  C3 (as stated). The claim has the key hash be the MAC of the password, the device-id
  digits padded with zero bytes to \<open>devid_len\<close>, and the magic suffix. For the password
  \<open>a\<close> and the device id \<open>123\<close> (not a smartphone) the code passes the 11 bytes
  \<open>a123\<close> and the suffix to \<open>securid_mac\<close>; the claim's buffer has 40 bytes.
\<close>

theorem key_buffer_is_not_padded:
  "key_hash_input stoken_h (Some [0x61]) (Some [0x31, 0x32, 0x33]) False
     = Inr ([0x61, 0x31, 0x32, 0x33] @ magic)
   \<and> spec_key_buffer [0x61] [0x31, 0x32, 0x33] False
     = [0x61, 0x31, 0x32, 0x33] @ replicate 29 0 @ magic
   \<and> key_hash_input stoken_h (Some [0x61]) (Some [0x31, 0x32, 0x33]) False
     \<noteq> Inr (spec_key_buffer [0x61] [0x31, 0x32, 0x33] False)"
  by (simp add: key_hash_input_result stoken_h_def opt_bytes_def devid_char_ok_def isdigit_def
      spec_key_buffer_def magic_def)

text \<open>
  C3 (amended). For every password of at most \<open>MAX_PASS\<close> bytes and every device id with
  at most \<open>devid_len\<close> valid digits (40 hexadecimal digits for a smartphone, else 32 decimal
  digits), \<open>generate_key_hash\<close> computes the key hash as the MAC of the password bytes,
  followed by the filtered device-id digits without padding, followed by the magic suffix;
  the MAC's length padding uses the password length plus the number of digits plus 7. The
  device-id hash is the short MAC of the digits padded with zero bytes to \<open>devid_len\<close>. The
  MAC input is the buffer of the claim exactly when the device id has \<open>devid_len\<close> valid
  digits.
\<close>

theorem generate_key_hash_buffer:
  fixes pass devid :: "byte list option" and sp :: bool
  defines "pw \<equiv> opt_bytes pass"
    and "ds \<equiv> filter (devid_char_ok sp) (opt_bytes devid)"
    and "devid_len \<equiv> (if sp then 40 else 32 :: nat)"
  assumes "40 \<le> DEVID_CHARS h" and "length pw \<le> MAX_PASS h" and "length ds \<le> devid_len"
  shows "generate_key_hash aes h pass devid sp =
           Inr (securid_mac aes (pw @ ds @ magic),
                securid_shortmac aes (ds @ replicate (devid_len - length ds) 0))
         \<and> last (securid_mac_blocks (pw @ ds @ magic))
             = mac_pad_loop ((length pw + length ds + 7) * 8) 15 (replicate 16 0)
         \<and> (pw @ ds @ magic = spec_key_buffer pw (opt_bytes devid) sp) = (length ds = devid_len)"
proof -
  have "generate_key_hash aes h pass devid sp =
           Inr (securid_mac aes (pw @ ds @ magic),
                securid_shortmac aes (ds @ replicate (devid_len - length ds) 0))"
    unfolding generate_key_hash_result [OF assms(4)] Let_def
    using assms(5,6) by (simp add: pw_def ds_def devid_len_def)
  moreover have "length (pw @ ds @ magic) = length pw + length ds + 7"
    by (simp add: magic_def)
  moreover have "(pw @ ds @ magic = spec_key_buffer pw (opt_bytes devid) sp) = (length ds = devid_len)"
    using assms(6) by (auto simp add: spec_key_buffer_def Let_def ds_def devid_len_def magic_def
        replicate_empty split: if_splits)
  ultimately show ?thesis
    by (simp only: last_mac_block)
qed

theorem generate_key_hash_buffer_witness:
  "generate_key_hash toy_enc stoken_h (Some [0x61]) (Some [0x31, 0x32, 0x33]) False =
     Inr (securid_mac toy_enc ([0x61, 0x31, 0x32, 0x33] @ magic),
          securid_shortmac toy_enc ([0x31, 0x32, 0x33] @ replicate 29 0))
   \<and> last (securid_mac_blocks ([0x61, 0x31, 0x32, 0x33] @ magic))
       = mac_pad_loop (11 * 8) 15 (replicate 16 0)
   \<and> [0x61, 0x31, 0x32, 0x33] @ magic \<noteq> spec_key_buffer [0x61] [0x31, 0x32, 0x33] False"
  using generate_key_hash_buffer [where h = stoken_h and pass = "Some [0x61]" and sp = False
      and devid = "Some [0x31, 0x32, 0x33]" and aes = toy_enc]
  by (simp add: stoken_h_def opt_bytes_def devid_char_ok_def isdigit_def)

text \<open>
  C8. \<open>generate_key_hash\<close> should fail with \<open>ERR_BAD_PASSWORD\<close> when the device id has
  more than \<open>devid_len\<close> valid digits. With 33 decimal digits and \<open>devid_len = 32\<close> it
  succeeds: the test \<open>len++ > devid_len\<close> lets the digit number \<open>devid_len + 1\<close> through.
  The key hash then covers all 33 digits and the device-id hash the first 32.
\<close>

theorem devid_33_digits_accepted:
  "generate_key_hash aes stoken_h None (Some (replicate 33 0x31)) False =
     Inr (securid_mac aes (replicate 33 0x31 @ magic), securid_shortmac aes (replicate 32 0x31))"
  by (simp add: generate_key_hash_result stoken_h_def opt_bytes_def devid_char_ok_def isdigit_def)

section \<open>What an error return leaves behind\<close>

lemma decode_error_effect:
  "(fst (securid_decode_token aes h inp d t) \<in> {ERR_BAD_LEN, ERR_TOKEN_VERSION}
      \<longrightarrow> snd (securid_decode_token aes h inp d t) = t)
   \<and> (fst (securid_decode_token aes h inp d t) = ERR_CHECKSUM_FAILED
      \<longrightarrow> snd (securid_decode_token aes h inp d t) = zero_token)
   \<and> fst (securid_decode_token aes h inp d t)
      \<in> {ERR_NONE, ERR_BAD_LEN, ERR_TOKEN_VERSION, ERR_CHECKSUM_FAILED}"
  by (simp add: securid_decode_token_def Let_def)

lemma devid_loop_error:
  "devid_loop sp L dv len pos key = Inl e \<Longrightarrow> e = ERR_BAD_PASSWORD"
  by (induction dv arbitrary: len pos key) (auto split: if_splits)

lemma key_fill_error: "key_fill h pass devid sp = Inl e \<Longrightarrow> e = ERR_BAD_PASSWORD"
  by (auto simp add: key_fill_def Let_def split: option.splits if_splits sum.splits prod.splits
      dest: devid_loop_error)

lemma generate_key_hash_error:
  "generate_key_hash aes h pass devid sp = Inl e \<Longrightarrow> e = ERR_BAD_PASSWORD"
  by (auto simp add: generate_key_hash_def Let_def split: sum.splits prod.splits
      dest: key_fill_error)

lemma decrypt_seed_error_effect:
  "(fst (securid_decrypt_seed aes aes_inv h t pass devid) \<notin> {ERR_NONE, ERR_DECRYPT_FAILED}
      \<longrightarrow> snd (securid_decrypt_seed aes aes_inv h t pass devid) = t)
   \<and> (fst (securid_decrypt_seed aes aes_inv h t pass devid) = ERR_DECRYPT_FAILED
      \<longrightarrow> (\<exists>key_hash dev_hash.
            generate_key_hash aes h (if flags t AND FL_PASSPROT h \<noteq> 0 then pass else None)
              (if flags t AND FL_SNPROT h \<noteq> 0 then devid else None) (is_smartphone t)
              = Inr (key_hash, dev_hash)
            \<and> snd (securid_decrypt_seed aes aes_inv h t pass devid)
              = t\<lparr>dec_seed := aes128_ecb_decrypt aes_inv key_hash (enc_seed t)\<rparr>))"
proof -
  define g where "g = generate_key_hash aes h (if flags t AND FL_PASSPROT h \<noteq> 0 then pass else None)
              (if flags t AND FL_SNPROT h \<noteq> 0 then devid else None) (is_smartphone t)"
  define r where "r = securid_decrypt_seed aes aes_inv h t pass devid"
  have r: "r =
     (if flags t AND FL_PASSPROT h \<noteq> 0 \<and> pass = None then (ERR_MISSING_PASSWORD, t)
      else if flags t AND FL_SNPROT h \<noteq> 0 \<and> devid = None then (ERR_MISSING_PASSWORD, t)
      else
        case g of
          Inl rc \<Rightarrow> (rc, t)
        | Inr (key_hash, dev_hash) \<Rightarrow>
            if flags t AND FL_SNPROT h \<noteq> 0 \<and> dev_hash \<noteq> device_id_hash t
            then (ERR_BAD_DEVID, t)
            else
              let t = t\<lparr>dec_seed := aes128_ecb_decrypt aes_inv key_hash (enc_seed t)\<rparr>;
                  computed_mac = securid_shortmac aes (take 16 (dec_seed t))
              in if computed_mac \<noteq> dec_seed_hash t then (ERR_DECRYPT_FAILED, t)
                 else (ERR_NONE, t\<lparr>has_dec_seed := True\<rparr>))"
    unfolding r_def g_def securid_decrypt_seed_def by (rule refl)
  have "(fst r \<notin> {ERR_NONE, ERR_DECRYPT_FAILED} \<longrightarrow> snd r = t)
     \<and> (fst r = ERR_DECRYPT_FAILED \<longrightarrow> (\<exists>key_hash dev_hash. g = Inr (key_hash, dev_hash)
            \<and> snd r = t\<lparr>dec_seed := aes128_ecb_decrypt aes_inv key_hash (enc_seed t)\<rparr>))"
  proof (cases g)
    case (Inl e)
    then have "e = ERR_BAD_PASSWORD"
      unfolding g_def by (rule generate_key_hash_error)
    with Inl show ?thesis unfolding r by simp
  next
    case (Inr p)
    then obtain kh dh where "g = Inr (kh, dh)" by (cases p) simp
    then show ?thesis unfolding r by (simp add: Let_def)
  qed
  then show ?thesis unfolding r_def g_def .
qed

lemma decrypt_pin_error_effect:
  "fst (securid_decrypt_pin aes aes_inv enc_pin password pn) \<noteq> ERR_NONE
     \<longrightarrow> snd (securid_decrypt_pin aes aes_inv enc_pin password pn) = pn"
  by (simp add: securid_decrypt_pin_def Let_def)

text \<open>
  C9 (as stated). The claim has every error return leave the caller's record unchanged. With
  the stand-in cipher, a token string whose checksum digits are wrong makes
  \<open>securid_decode_token\<close> return \<open>ERR_CHECKSUM_FAILED\<close> with the record zeroed (it held
  \<open>flags = 0x18\<close> before), and \<open>securid_decrypt_seed\<close> on a record whose seed hash does not
  match returns \<open>ERR_DECRYPT_FAILED\<close> with \<open>dec_seed\<close> overwritten.
\<close>

theorem failed_decode_and_decrypt_change_the_record:
  "securid_decode_token toy_enc stoken_h (0x32 # replicate 79 0x30 @ [0x31]) (replicate 33 0)
       (flags_token 0x18)
     = (ERR_CHECKSUM_FAILED, zero_token)
   \<and> flags_token 0x18 \<noteq> zero_token
   \<and> securid_decrypt_seed toy_enc toy_dec stoken_h zero_token None None
     = (ERR_DECRYPT_FAILED,
        zero_token\<lparr>dec_seed := [253, 59, 63, 25, 137, 0, 0, 0, 0, 0, 0, 0, 0, 64, 218, 87]\<rparr>)
   \<and> dec_seed zero_token \<noteq> [253, 59, 63, 25, 137, 0, 0, 0, 0, 0, 0, 0, 0, 64, 218, 87]"
proof -
  have "securid_decode_token toy_enc stoken_h (0x32 # replicate 79 0x30 @ [0x31]) (replicate 33 0)
       (flags_token 0x18) = (ERR_CHECKSUM_FAILED, zero_token)"
    by code_simp
  moreover have "flags_token 0x18 \<noteq> zero_token"
    by (simp add: flags_token_def zero_token_def)
  moreover have "securid_decrypt_seed toy_enc toy_dec stoken_h zero_token None None
     = (ERR_DECRYPT_FAILED,
        zero_token\<lparr>dec_seed := [253, 59, 63, 25, 137, 0, 0, 0, 0, 0, 0, 0, 0, 64, 218, 87]\<rparr>)"
    by code_simp
  moreover have "dec_seed zero_token \<noteq> [253, 59, 63, 25, 137, 0, 0, 0, 0, 0, 0, 0, 0, 64, 218, 87]"
    by code_simp
  ultimately show ?thesis by blast
qed

text \<open>
  C9 (amended). For every cipher and every input: when \<open>securid_decode_token\<close> returns
  \<open>ERR_BAD_LEN\<close> or \<open>ERR_TOKEN_VERSION\<close> the record is unchanged, and when it returns
  \<open>ERR_CHECKSUM_FAILED\<close>, its only other error, the record has been zeroed; when
  \<open>securid_decrypt_seed\<close> returns \<open>ERR_MISSING_PASSWORD\<close>, \<open>ERR_BAD_PASSWORD\<close> or
  \<open>ERR_BAD_DEVID\<close> the record is unchanged, and when it returns \<open>ERR_DECRYPT_FAILED\<close> the
  field \<open>dec_seed\<close> holds the decryption of \<open>enc_seed\<close> under the derived key and every
  other field, \<open>has_dec_seed\<close> included, is unchanged; when \<open>securid_decrypt_pin\<close> returns
  an error the PIN buffer is unchanged.
\<close>

theorem error_returns_and_outputs:
  "(fst (securid_decode_token aes h inp d t) \<in> {ERR_BAD_LEN, ERR_TOKEN_VERSION}
      \<longrightarrow> snd (securid_decode_token aes h inp d t) = t)
   \<and> (fst (securid_decode_token aes h inp d t) = ERR_CHECKSUM_FAILED
      \<longrightarrow> snd (securid_decode_token aes h inp d t) = zero_token)
   \<and> fst (securid_decode_token aes h inp d t)
      \<in> {ERR_NONE, ERR_BAD_LEN, ERR_TOKEN_VERSION, ERR_CHECKSUM_FAILED}
   \<and> (fst (securid_decrypt_seed aes aes_inv h t pass devid) \<notin> {ERR_NONE, ERR_DECRYPT_FAILED}
      \<longrightarrow> snd (securid_decrypt_seed aes aes_inv h t pass devid) = t)
   \<and> (fst (securid_decrypt_seed aes aes_inv h t pass devid) = ERR_DECRYPT_FAILED
      \<longrightarrow> (\<exists>key_hash dev_hash.
            generate_key_hash aes h (if flags t AND FL_PASSPROT h \<noteq> 0 then pass else None)
              (if flags t AND FL_SNPROT h \<noteq> 0 then devid else None) (is_smartphone t)
              = Inr (key_hash, dev_hash)
            \<and> snd (securid_decrypt_seed aes aes_inv h t pass devid)
              = t\<lparr>dec_seed := aes128_ecb_decrypt aes_inv key_hash (enc_seed t)\<rparr>))
   \<and> (fst (securid_decrypt_pin aes aes_inv enc_pin password pn) \<noteq> ERR_NONE
      \<longrightarrow> snd (securid_decrypt_pin aes aes_inv enc_pin password pn) = pn)"
  using decode_error_effect [of aes h inp d t]
    decrypt_seed_error_effect [of aes aes_inv h t pass devid]
    decrypt_pin_error_effect [of aes aes_inv enc_pin password pn]
  by blast

theorem error_returns_and_outputs_witness:
  "fst (securid_decode_token toy_enc stoken_h (0x32 # replicate 79 0x30 @ [0x31]) (replicate 33 0)
       (flags_token 0x18)) = ERR_CHECKSUM_FAILED
   \<and> snd (securid_decode_token toy_enc stoken_h (0x32 # replicate 79 0x30 @ [0x31]) (replicate 33 0)
       (flags_token 0x18)) = zero_token
   \<and> fst (securid_decode_token toy_enc stoken_h [] (replicate 33 0) (flags_token 0x18)) = ERR_BAD_LEN
   \<and> snd (securid_decode_token toy_enc stoken_h [] (replicate 33 0) (flags_token 0x18))
       = flags_token 0x18
   \<and> fst (securid_decrypt_seed toy_enc toy_dec stoken_h (flags_token 0x2000) None None)
       = ERR_MISSING_PASSWORD
   \<and> snd (securid_decrypt_seed toy_enc toy_dec stoken_h (flags_token 0x2000) None None)
       = flags_token 0x2000
   \<and> fst (securid_decrypt_pin toy_enc toy_dec (replicate 64 0x30) [] (replicate 9 0xee))
       = ERR_GENERAL
   \<and> snd (securid_decrypt_pin toy_enc toy_dec (replicate 64 0x30) [] (replicate 9 0xee))
       = replicate 9 0xee"
proof -
  have a: "fst (securid_decode_token toy_enc stoken_h (0x32 # replicate 79 0x30 @ [0x31])
       (replicate 33 0) (flags_token 0x18)) = ERR_CHECKSUM_FAILED"
    by code_simp
  have b: "fst (securid_decode_token toy_enc stoken_h [] (replicate 33 0) (flags_token 0x18))
       = ERR_BAD_LEN"
    by code_simp
  have c: "fst (securid_decrypt_seed toy_enc toy_dec stoken_h (flags_token 0x2000) None None)
       = ERR_MISSING_PASSWORD"
    by code_simp
  have e: "fst (securid_decrypt_pin toy_enc toy_dec (replicate 64 0x30) [] (replicate 9 0xee))
       = ERR_GENERAL"
    by code_simp
  show ?thesis
    using a b c e
      error_returns_and_outputs [of toy_enc stoken_h "0x32 # replicate 79 0x30 @ [0x31]"
        "replicate 33 0" "flags_token 0x18" toy_dec None None "replicate 64 0x30" "[]"
        "replicate 9 0xee"]
      error_returns_and_outputs [of toy_enc stoken_h "[]"
        "replicate 33 0" "flags_token 0x18" toy_dec None None "replicate 64 0x30" "[]"
        "replicate 9 0xee"]
      error_returns_and_outputs [of toy_enc stoken_h "[]"
        "replicate 33 0" "flags_token 0x2000" toy_dec None None "replicate 64 0x30" "[]"
        "replicate 9 0xee"]
    by simp
qed

section \<open>The PIN round trip\<close>

lemma aes128_ecb_encrypt_length:
  "block_fun aes \<Longrightarrow> 16 \<le> length key \<Longrightarrow> 16 \<le> length inp
     \<Longrightarrow> length (aes128_ecb_encrypt aes key inp) = 16"
  by (simp add: block_fun_def aes128_ecb_encrypt_def)

lemma encrypt_then_xor_length:
  "block_fun aes \<Longrightarrow> 16 \<le> length key \<Longrightarrow> length work = 16
     \<Longrightarrow> length (encrypt_then_xor aes key work) = 16"
  by (simp add: encrypt_then_xor_def aes128_ecb_encrypt_length)

lemma mac_pad_loop_length: "length (mac_pad_loop i p pad) = length pad"
  by (induction i p pad rule: mac_pad_loop.induct) (subst mac_pad_loop.simps, simp)

lemma mac_bulk_length:
  "block_fun aes \<Longrightarrow> length work = 16 \<Longrightarrow> mac_bulk aes inp work parity = (rest, work', parity')
     \<Longrightarrow> length work' = 16 \<and> length rest \<le> 16"
proof (induction aes inp work parity rule: mac_bulk.induct)
  case (1 aes inp work parity)
  show ?case
  proof (cases "length inp > 16")
    case True
    with "1.prems" have "mac_bulk aes (drop 16 inp) (encrypt_then_xor aes (take 16 inp) work) (\<not> parity)
        = (rest, work', parity')"
      by (subst (asm) mac_bulk.simps) simp
    moreover have "length (encrypt_then_xor aes (take 16 inp) work) = 16"
      using "1.prems" True by (simp add: encrypt_then_xor_length)
    ultimately show ?thesis
      using "1.IH" [OF True] "1.prems"(1) by blast
  next
    case False
    with "1.prems" show ?thesis
      by (subst (asm) mac_bulk.simps) simp
  qed
qed

lemma securid_mac_length:
  assumes "block_fun aes"
  shows "length (securid_mac aes inp) = 16"
proof -
  obtain rest work parity where b: "mac_bulk aes inp (replicate 16 0xff) False = (rest, work, parity)"
    by (cases "mac_bulk aes inp (replicate 16 0xff) False") auto
  from mac_bulk_length [OF assms _ b] have w: "length work = 16" and r: "length rest \<le> 16"
    by simp_all
  define l where "l = memcpy (replicate 16 0) 0 rest (length rest)"
  have l: "length l = 16" using r by (simp add: l_def memcpy_def)
  define w1 where "w1 = encrypt_then_xor aes l work"
  have w1: "length w1 = 16" unfolding w1_def using assms l w by (simp add: encrypt_then_xor_length)
  define w2 where "w2 = (if parity then encrypt_then_xor aes (replicate 16 0) w1 else w1)"
  have w2: "length w2 = 16" unfolding w2_def using assms w1 by (simp add: encrypt_then_xor_length)
  define w3 where "w3 = encrypt_then_xor aes (mac_pad_loop (length inp * 8) 15 (replicate 16 0)) w2"
  have w3: "length w3 = 16" unfolding w3_def using assms w2
    by (simp add: encrypt_then_xor_length mac_pad_loop_length)
  have "securid_mac aes inp = encrypt_then_xor aes w3 w3"
    unfolding securid_mac_def Let_def b w3_def w2_def w1_def l_def by simp
  then show ?thesis using assms w3 by (simp add: encrypt_then_xor_length)
qed

lemma rotate_16: "length ys = 16 \<Longrightarrow> rotate 15 (rotate1 ys) = ys"
proof -
  assume l: "length ys = 16"
  have "rotate 15 (rotate1 ys) = rotate 15 (rotate 1 ys)" by simp
  also have "\<dots> = rotate (15 + 1) ys" by (rule rotate_rotate)
  also have "\<dots> = rotate 16 ys" by (simp only: numeral_plus_one semiring_norm)
  also have "\<dots> = ys" by (rule rotate_id) (simp add: l)
  finally show ?thesis .
qed

lemma toy_block_cipher: "block_cipher toy_enc toy_dec"
proof -
  have "toy_dec k (toy_enc k b) = b" if "length k = 16" "length b = 16" for k b
  proof -
    have "rotate 15 (rotate1 (map2 (+) k b)) = map2 (+) k b"
      using that by (intro rotate_16) simp
    moreover have "map2 (-) (map2 (+) k b) k = b"
      using that by (intro nth_equalityI) simp_all
    ultimately show ?thesis by (simp add: toy_dec_def toy_enc_def)
  qed
  then show ?thesis
    by (simp add: block_cipher_def block_fun_def toy_enc_def toy_dec_def)
qed

lemma hex2byte_hexdigit_all:
  "\<forall>hi\<in>set [0..<16]. \<forall>lo\<in>set [0..<16].
     hex2byte (hexdigit hi) (hexdigit lo) = of_nat (16 * hi + lo)"
  by code_simp

lemma hex2byte_sprintf: "hex2byte (hexdigit (unat b div 16)) (hexdigit (unat b mod 16)) = (b::byte)"
proof -
  have "unat b < 256" using unsigned_less [of b, where ?'a = nat] by simp
  then have "unat b div 16 \<in> set [0..<16]" "unat b mod 16 \<in> set [0..<16]" by simp_all
  with hex2byte_hexdigit_all
  have "hex2byte (hexdigit (unat b div 16)) (hexdigit (unat b mod 16))
      = of_nat (16 * (unat b div 16) + unat b mod 16)" by blast
  then show ?thesis by simp
qed

lemma lower_hex_hexdigit_all: "\<forall>n\<in>set [0..<16]. lower_hex (hexdigit n)"
  by code_simp

lemma lower_hex_sprintf: "list_all lower_hex (sprintf_02x b)"
proof -
  have "unat b < 256" using unsigned_less [of b, where ?'a = nat] by simp
  then have "unat b div 16 \<in> set [0..<16]" "unat b mod 16 \<in> set [0..<16]" by simp_all
  with lower_hex_hexdigit_all show ?thesis by (simp add: sprintf_02x_def)
qed

lemma lower_hex_concat: "list_all lower_hex (concat (map sprintf_02x xs))"
  by (induction xs) (simp_all add: lower_hex_sprintf)

lemma length_hex: "length (concat (map sprintf_02x xs)) = 2 * length xs"
  by (induction xs) (simp_all add: sprintf_02x_def)

lemma hex_nth:
  "i < length xs \<Longrightarrow>
     concat (map sprintf_02x xs) ! (i * 2) = hexdigit (unat (xs ! i) div 16)
     \<and> concat (map sprintf_02x xs) ! Suc (i * 2) = hexdigit (unat (xs ! i) mod 16)"
proof (induction xs arbitrary: i)
  case Nil
  then show ?case by simp
next
  case (Cons x xs)
  show ?case
  proof (cases i)
    case 0
    then show ?thesis by (simp add: sprintf_02x_def)
  next
    case (Suc j)
    with Cons.prems have "j < length xs" by simp
    from Cons.IH [OF this] Suc show ?thesis by (simp add: sprintf_02x_def)
  qed
qed

lemma parse_hex:
  "map (\<lambda>i. hex2byte (concat (map sprintf_02x xs) ! (i * 2)) (concat (map sprintf_02x xs) ! Suc (i * 2)))
     [0..<length xs] = xs"
  by (rule nth_equalityI) (simp_all add: hex_nth hex2byte_sprintf)

lemma map2_xor_cancel:
  "length xs = length ys \<Longrightarrow> map2 (XOR) (map2 (XOR) xs ys) ys = (xs :: byte list)"
  by (rule nth_equalityI) (simp_all add: xor.assoc)

lemma isdigit_nonzero: "isdigit c \<Longrightarrow> c \<noteq> 0"
  by (auto simp add: isdigit_def)

lemma cstring_digits: "list_all isdigit pn \<Longrightarrow> cstring (pn @ 0 # rest) = pn"
  unfolding cstring_def
  by (induction pn) (auto simp add: isdigit_nonzero)

lemma parse_hex_iv:
  assumes "length iv = 16" "length ct = 16"
  shows "map (\<lambda>i. hex2byte ((concat (map sprintf_02x iv) @ concat (map sprintf_02x ct)) ! (i * 2))
                          ((concat (map sprintf_02x iv) @ concat (map sprintf_02x ct)) ! (i * 2 + 1)))
           [0..<16] = iv"
proof -
  have "(concat (map sprintf_02x iv) @ concat (map sprintf_02x ct)) ! (i * 2)
          = concat (map sprintf_02x iv) ! (i * 2)
      \<and> (concat (map sprintf_02x iv) @ concat (map sprintf_02x ct)) ! (i * 2 + 1)
          = concat (map sprintf_02x iv) ! (i * 2 + 1)" if "i < 16" for i
    using that assms by (simp add: nth_append length_hex)
  then have "map (\<lambda>i. hex2byte ((concat (map sprintf_02x iv) @ concat (map sprintf_02x ct)) ! (i * 2))
                          ((concat (map sprintf_02x iv) @ concat (map sprintf_02x ct)) ! (i * 2 + 1)))
           [0..<16]
     = map (\<lambda>i. hex2byte (concat (map sprintf_02x iv) ! (i * 2)) (concat (map sprintf_02x iv) ! Suc (i * 2)))
           [0..<length iv]"
    using assms by (intro map_cong) simp_all
  then show ?thesis by (simp only: parse_hex)
qed

lemma parse_hex_ct:
  assumes "length iv = 16" "length ct = 16"
  shows "map (\<lambda>i. hex2byte ((concat (map sprintf_02x iv) @ concat (map sprintf_02x ct)) ! ((i + 16) * 2))
                          ((concat (map sprintf_02x iv) @ concat (map sprintf_02x ct)) ! ((i + 16) * 2 + 1)))
           [0..<16] = ct"
proof -
  have "(concat (map sprintf_02x iv) @ concat (map sprintf_02x ct)) ! ((i + 16) * 2)
          = concat (map sprintf_02x ct) ! (i * 2)
      \<and> (concat (map sprintf_02x iv) @ concat (map sprintf_02x ct)) ! ((i + 16) * 2 + 1)
          = concat (map sprintf_02x ct) ! (i * 2 + 1)" for i
    using assms by (simp add: nth_append length_hex)
  then have "map (\<lambda>i. hex2byte ((concat (map sprintf_02x iv) @ concat (map sprintf_02x ct)) ! ((i + 16) * 2))
                          ((concat (map sprintf_02x iv) @ concat (map sprintf_02x ct)) ! ((i + 16) * 2 + 1)))
           [0..<16]
     = map (\<lambda>i. hex2byte (concat (map sprintf_02x ct) ! (i * 2)) (concat (map sprintf_02x ct) ! Suc (i * 2)))
           [0..<length ct]"
    using assms by (intro map_cong) simp_all
  then show ?thesis by (simp only: parse_hex)
qed

text \<open>
  C6. For every PIN of 4 to 8 decimal digits, every password and every 16 random bytes,
  \<open>securid_encrypt_pin\<close> returns a string of 64 lower-case hexadecimal characters, the IV
  followed by the ciphertext, and \<open>securid_decrypt_pin\<close> on that string with the same password
  succeeds and writes the original PIN, for a cipher whose decryption inverts its encryption
  on 16-byte blocks.
\<close>

theorem pin_round_trip:
  assumes bc: "block_cipher aes aes_inv"
    and len: "4 \<le> length pn" "length pn \<le> 8" and dig: "list_all isdigit pn"
    and iv: "length iv = 16"
  shows "\<exists>e. securid_encrypt_pin aes pn password (Some iv) = Some e
           \<and> length e = 64 \<and> list_all lower_hex e \<and> take 32 e = concat (map sprintf_02x iv)
           \<and> securid_decrypt_pin aes aes_inv e password pin0
               = (ERR_NONE, pn @ 0 # drop (length pn + 1) pin0)
           \<and> cstring (snd (securid_decrypt_pin aes aes_inv e password pin0)) = pn"
proof -
  from bc have bf: "block_fun aes" and bfi: "block_fun aes_inv"
    and inv: "\<And>k b. length k = 16 \<Longrightarrow> length b = 16 \<Longrightarrow> aes_inv k (aes k b) = b"
    by (simp_all add: block_cipher_def)
  have ok: "securid_pin_format_ok pn = ERR_NONE"
    using len dig by (simp add: securid_pin_format_ok_def)
  define passhash where "passhash = securid_mac aes password"
  have ph: "length passhash = 16" unfolding passhash_def by (rule securid_mac_length [OF bf])
  define buf where "buf = (pn @ 0 # replicate (15 - length pn) 0)[15 := of_nat (length pn)]"
  have buf0: "(memcpy (replicate 16 0) 0 (pn @ [0]) (Suc (length pn)))[15 := of_nat (length pn)] = buf"
    using len by (simp add: memcpy_def buf_def)
  have lb: "length buf = 16" using len by (simp add: buf_def)
  have buf': "buf = pn @ 0 # replicate (14 - length pn) 0 @ [of_nat (length pn)]"
    using len unfolding buf_def
    by (intro nth_equalityI) (auto simp add: nth_append nth_Cons' nth_list_update)
  define x where "x = map2 (XOR) buf iv"
  have lx: "length x = 16" using lb iv by (simp add: x_def)
  define ct where "ct = aes128_ecb_encrypt aes passhash x"
  have ct: "ct = aes passhash x" and lct: "length ct = 16"
    using bf ph lx by (simp_all add: ct_def aes128_ecb_encrypt_def block_fun_def)
  define e where "e = concat (map sprintf_02x iv) @ concat (map sprintf_02x ct)"
  have enc: "securid_encrypt_pin aes pn password (Some iv) = Some e"
    unfolding securid_encrypt_pin_def Let_def
    using ok iv lct by (simp add: buf0 passhash_def [symmetric] x_def [symmetric] ct_def [symmetric] e_def)
  have le: "length e = 64" using iv lct by (simp add: e_def length_hex)
  have hx: "list_all lower_hex e" by (simp add: e_def lower_hex_concat)
  have tk: "take 32 e = concat (map sprintf_02x iv)" using iv by (simp add: e_def length_hex)
  have dec1: "aes128_ecb_decrypt aes_inv passhash ct = x"
    using inv [OF ph lx] ph lct lx by (simp add: aes128_ecb_decrypt_def ct)
  have unmask: "map2 (XOR) x iv = buf"
    unfolding x_def using lb iv by (simp add: map2_xor_cancel)
  have cs: "cstring buf = pn" unfolding buf' by (rule cstring_digits [OF dig])
  have b14: "buf ! 14 = 0"
    using len unfolding buf' by (auto simp add: nth_append nth_Cons')
  have b15: "buf ! 15 = of_nat (length pn)"
    using len unfolding buf_def by simp
  have u15: "unat (buf ! 15) = length pn"
    unfolding b15 using len by (simp add: unat_of_nat)
  have dec: "securid_decrypt_pin aes aes_inv e password pin0
               = (ERR_NONE, pn @ 0 # drop (length pn + 1) pin0)"
    unfolding securid_decrypt_pin_def Let_def
    using le
    by (simp add: e_def [symmetric])
       (simp add: e_def parse_hex_iv [OF iv lct, simplified] parse_hex_ct [OF iv lct, simplified]
         passhash_def [symmetric] dec1 unmask cs b14 u15 ok memcpy_def)
  have "cstring (pn @ 0 # drop (length pn + 1) pin0) = pn" by (rule cstring_digits [OF dig])
  with enc le hx tk dec show ?thesis by simp
qed

theorem pin_round_trip_witness:
  "securid_encrypt_pin toy_enc [0x31, 0x32, 0x33, 0x34] [0x70, 0x77] (Some (map of_nat [200..<216]))
     = Some [99, 56, 99, 57, 99, 97, 99, 98, 99, 99, 99, 100, 99, 101, 99, 102, 100,
        48, 100, 49, 100, 50, 100, 51, 100, 52, 100, 53, 100, 54, 100, 55, 102,
        98, 102, 57, 102, 102, 99, 99, 99, 100, 99, 101, 99, 102, 100, 48, 100,
        49, 100, 50, 100, 51, 100, 52, 49, 53, 54, 56, 100, 101, 56, 50]
   \<and> securid_decrypt_pin toy_enc toy_dec
       [99, 56, 99, 57, 99, 97, 99, 98, 99, 99, 99, 100, 99, 101, 99, 102, 100,
        48, 100, 49, 100, 50, 100, 51, 100, 52, 100, 53, 100, 54, 100, 55, 102,
        98, 102, 57, 102, 102, 99, 99, 99, 100, 99, 101, 99, 102, 100, 48, 100,
        49, 100, 50, 100, 51, 100, 52, 49, 53, 54, 56, 100, 101, 56, 50]
       [0x70, 0x77] (replicate 9 0xee)
     = (ERR_NONE, [0x31, 0x32, 0x33, 0x34, 0, 0xee, 0xee, 0xee, 0xee])"
proof -
  have enc: "securid_encrypt_pin toy_enc [0x31, 0x32, 0x33, 0x34] [0x70, 0x77]
       (Some (map of_nat [200..<216]))
     = Some [99, 56, 99, 57, 99, 97, 99, 98, 99, 99, 99, 100, 99, 101, 99, 102, 100,
        48, 100, 49, 100, 50, 100, 51, 100, 52, 100, 53, 100, 54, 100, 55, 102,
        98, 102, 57, 102, 102, 99, 99, 99, 100, 99, 101, 99, 102, 100, 48, 100,
        49, 100, 50, 100, 51, 100, 52, 49, 53, 54, 56, 100, 101, 56, 50]"
    by code_simp
  have "4 \<le> length [0x31, 0x32, 0x33, 0x34 :: byte]" "length [0x31, 0x32, 0x33, 0x34 :: byte] \<le> 8"
    "list_all isdigit [0x31, 0x32, 0x33, 0x34]" "length (map of_nat [200..<216] :: byte list) = 16"
    by (simp_all add: isdigit_def)
  from pin_round_trip [OF toy_block_cipher this, of "[0x70, 0x77]" "replicate 9 0xee"] enc
  show ?thesis by (auto simp add: numeral_eq_Suc)
qed

section \<open>The bit codecs\<close>

lemma bit_at_byte: "r < 8 \<Longrightarrow> bit_at d (8 * w + r) = bit (d ! w) (7 - r)"
  by (simp add: bit_at_def)

lemma bit_shl1: "bit (push_bit 1 (x::32 word)) i \<longleftrightarrow> 0 < i \<and> i < 32 \<and> bit x (i - 1)"
  by (simp only: bit_push_bit_iff possible_bit_word) auto

lemma bit_shl1_or1: "bit (push_bit 1 (x::32 word) OR 0x01) i \<longleftrightarrow> i = 0 \<or> (i < 32 \<and> bit x (i - 1))"
  by (simp only: bit_or_iff bit_shl1 bit_1_iff) auto

lemma bit_7: "bit (0x07 :: 'a::len word) i \<longleftrightarrow> i < 3 \<and> i < LENGTH('a)"
proof -
  have "(0x07 :: 'a word) = mask 3" by (simp add: mask_eq_exp_minus_1)
  then show ?thesis by (simp only: bit_mask_iff possible_bit_word) auto
qed

lemma bit_ff: "bit (0xff :: 'a::len word) i \<longleftrightarrow> i < 8 \<and> i < LENGTH('a)"
proof -
  have "(0xff :: 'a word) = mask 8" by (simp add: mask_eq_exp_minus_1)
  then show ?thesis by (simp only: bit_mask_iff possible_bit_word) auto
qed

lemma test_0x80:
  assumes "start < 8"
  shows "(push_bit start (ucast (b :: byte) :: 32 word) AND 0x80 \<noteq> 0) = bit b (7 - start)"
proof -
  have "(0x80 :: 32 word) = push_bit 7 1" by simp
  then have "(push_bit start (ucast b :: 32 word) AND 0x80 \<noteq> 0)
     = (push_bit start (ucast b :: 32 word) AND push_bit 7 1 \<noteq> 0)"
    by (simp only:)
  also have "\<dots> = bit (push_bit start (ucast b :: 32 word)) 7"
    by (simp only: bit_iff_and_push_bit_not_eq_0)
  also have "\<dots> \<longleftrightarrow> bit b (7 - start)"
    using assms by (simp only: bit_push_bit_iff bit_ucast_iff possible_bit_word) auto
  finally show ?thesis .
qed

lemma test_bit31: "(val AND push_bit 31 1 \<noteq> 0) = bit (val :: 32 word) 31"
  by (simp only: bit_iff_and_push_bit_not_eq_0)

lemma bit_set: "start < 8 \<Longrightarrow> bit ((x::byte) OR push_bit (7 - start) 1) i \<longleftrightarrow> bit x i \<or> i = 7 - start"
  by (simp only: bit_or_iff bit_push_bit_iff bit_1_iff possible_bit_word) auto

lemma bit_clear: "start < 8 \<Longrightarrow> bit ((x::byte) AND NOT (push_bit (7 - start) 1)) i \<longleftrightarrow> bit x i \<and> i \<noteq> 7 - start"
  by (simp only: bit_and_iff bit_not_iff bit_push_bit_iff bit_1_iff possible_bit_word) (auto dest: bit_imp_le_length)

lemma get_bits_loop_bit:
  assumes "start < 8" "j < 32"
  shows "bit (get_bits_loop inp w start n out) j \<longleftrightarrow>
    (if j < n then bit_at inp (8 * w + start + n - 1 - j) else bit out (j - n))"
  using assms
proof (induction n arbitrary: w start out j)
  case 0
  then show ?case by simp
next
  case (Suc n)
  define out1 where "out1 = (if bit (inp ! w) (7 - start) then push_bit 1 out OR 0x01 else push_bit 1 out)"
  have out1: "bit out1 i \<longleftrightarrow> (if i = 0 then bit_at inp (8 * w + start) else i < 32 \<and> bit out (i - 1))" for i
    unfolding out1_def bit_at_byte [OF Suc.prems(1)]
    by (cases "bit (inp ! w) (7 - start)") (simp_all only: bit_shl1_or1 bit_shl1 if_True if_False, auto)
  have step: "get_bits_loop inp w start (Suc n) out =
      (if start + 1 = 8 then get_bits_loop inp (Suc w) 0 n out1
       else get_bits_loop inp w (start + 1) n out1)"
    unfolding get_bits_loop.simps Let_def test_0x80 [OF Suc.prems(1)] out1_def by (rule refl)
  show ?case
  proof (cases "start + 1 = 8")
    case True
    then have s: "start = 7" by simp
    have "bit (get_bits_loop inp (Suc w) 0 n out1) j \<longleftrightarrow>
      (if j < n then bit_at inp (8 * Suc w + 0 + n - 1 - j) else bit out1 (j - n))"
      by (rule Suc.IH) (use Suc.prems in simp_all)
    moreover have "8 * Suc w + 0 + n - 1 - j = 8 * w + start + Suc n - 1 - j" using s by simp
    moreover have "j - n = 0 \<longleftrightarrow> j \<le> n" by simp
    moreover have "\<not> j < n \<Longrightarrow> j \<noteq> n \<Longrightarrow> j - n - 1 = j - Suc n" by simp
    moreover have "8 * w + start + Suc n - 1 - n = 8 * w + start" by simp
    moreover have "j - n < 32" using Suc.prems(2) by simp
    ultimately show ?thesis
      unfolding step using True Suc.prems(2)
      by (cases "j < n"; cases "j = n") (simp_all add: out1 ac_simps)
  next
    case False
    then have s: "start + 1 < 8" using Suc.prems(1) by simp
    have "bit (get_bits_loop inp w (start + 1) n out1) j \<longleftrightarrow>
      (if j < n then bit_at inp (8 * w + (start + 1) + n - 1 - j) else bit out1 (j - n))"
      by (rule Suc.IH) (use Suc.prems s in simp_all)
    moreover have "8 * w + (start + 1) + n - 1 - j = 8 * w + start + Suc n - 1 - j" by simp
    moreover have "j - n = 0 \<longleftrightarrow> j \<le> n" by simp
    moreover have "\<not> j < n \<Longrightarrow> j \<noteq> n \<Longrightarrow> j - n - 1 = j - Suc n" by simp
    moreover have "8 * w + start + Suc n - 1 - n = 8 * w + start" by simp
    moreover have "j - n < 32" using Suc.prems(2) by simp
    ultimately show ?thesis
      unfolding step using False Suc.prems(2)
      by (cases "j < n"; cases "j = n") (simp_all add: out1 ac_simps)
  qed
qed

lemma div_mod_8: "8 * (k div 8) + k mod 8 = (k::nat)" by simp

lemma get_bits_bit:
  assumes "j < 32"
  shows "bit (get_bits inp start n) j \<longleftrightarrow> j < n \<and> bit_at inp (start + n - 1 - j)"
proof -
  have "start mod 8 < 8" by simp
  from get_bits_loop_bit [OF this assms, of inp "start div 8" n 0]
  show ?thesis unfolding get_bits_def div_mod_8 by simp
qed

lemma bit_at_update_same:
  assumes "w < length d" "r < 8"
  shows "bit_at (d[w := x]) (8 * w + r) = bit x (7 - r)"
  using assms by (simp add: bit_at_byte)

lemma bit_at_update:
  assumes "w < length d"
  shows "bit_at (d[w := x]) k = (if k div 8 = w then bit x (7 - k mod 8) else bit_at d k)"
  using assms by (simp add: bit_at_def)

lemma set_bits_loop_bit:
  assumes "start < 8" "8 * w + start + n \<le> 8 * length out" "n \<le> 32"
  shows "length (set_bits_loop out w start n val) = length out \<and>
    (\<forall>k. bit_at (set_bits_loop out w start n val) k \<longleftrightarrow>
      (if 8 * w + start \<le> k \<and> k < 8 * w + start + n then bit val (31 - (k - (8 * w + start)))
       else bit_at out k))"
  using assms
proof (induction n arbitrary: out w start val)
  case 0
  then show ?case by auto
next
  case (Suc n)
  have w: "w < length out" using Suc.prems by simp
  have n: "n \<le> 32" "n < 32" using Suc.prems by simp_all
  define out1 where "out1 = (if bit val 31 then out[w := out ! w OR push_bit (7 - start) 1]
       else out[w := out ! w AND NOT (push_bit (7 - start) 1)])"
  have l1: "length out1 = length out" by (simp add: out1_def)
  have out1: "bit_at out1 k \<longleftrightarrow> (if k = 8 * w + start then bit val 31 else bit_at out k)" for k
  proof (cases "k div 8 = w")
    case False
    then have "k \<noteq> 8 * w + start" using Suc.prems(1) by auto
    with False show ?thesis by (simp add: out1_def bit_at_update [OF w])
  next
    case True
    have k: "k = 8 * w + k mod 8" using True by (metis div_mod_8)
    have "k mod 8 < 8" by simp
    then have e: "(7 - k mod 8 = 7 - start) = (k = 8 * w + start)"
      using Suc.prems(1) k by auto
    have o: "bit_at out k = bit (out ! w) (7 - k mod 8)" by (simp add: bit_at_def True)
    show ?thesis
    proof (cases "bit val 31")
      case b: True
      then have "bit_at out1 k = bit (out ! w OR push_bit (7 - start) 1) (7 - k mod 8)"
        unfolding out1_def by (simp only: if_True bit_at_update [OF w] True refl)
      also have "\<dots> = (bit (out ! w) (7 - k mod 8) \<or> k = 8 * w + start)"
        by (simp only: bit_set [OF Suc.prems(1)] e)
      finally show ?thesis using b o by auto
    next
      case b: False
      then have "bit_at out1 k = bit (out ! w AND NOT (push_bit (7 - start) 1)) (7 - k mod 8)"
        unfolding out1_def by (simp only: if_False bit_at_update [OF w] True refl if_True)
      also have "\<dots> = (bit (out ! w) (7 - k mod 8) \<and> k \<noteq> 8 * w + start)"
        by (simp only: bit_clear [OF Suc.prems(1)] e)
      finally show ?thesis using b o by auto
    qed
  qed
  define val1 where "val1 = push_bit 1 val"
  have val1: "i < 31 \<Longrightarrow> bit val1 (Suc i) = bit val i" for i
    unfolding val1_def bit_shl1 by simp
  have step: "set_bits_loop out w start (Suc n) val =
      (if start + 1 = 8 then set_bits_loop out1 (Suc w) 0 n val1
       else set_bits_loop out1 w (start + 1) n val1)"
    unfolding set_bits_loop.simps Let_def test_bit31 out1_def val1_def by (rule refl)
  define w' s' where "w' = (if start + 1 = 8 then Suc w else w)" and "s' = (if start + 1 = 8 then 0 else start + 1)"
  have pos: "8 * w' + s' = 8 * w + start + 1" and s': "s' < 8"
    using Suc.prems(1) by (auto simp add: w'_def s'_def)
  have step': "set_bits_loop out w start (Suc n) val = set_bits_loop out1 w' s' n val1"
    unfolding step w'_def s'_def by simp
  have "8 * w' + s' + n \<le> 8 * length out1" using Suc.prems(2) pos l1 by simp
  from Suc.IH [OF s' this n(1), of val1]
  have IH1: "length (set_bits_loop out1 w' s' n val1) = length out"
    and IH2: "\<And>k. bit_at (set_bits_loop out1 w' s' n val1) k \<longleftrightarrow>
      (if 8 * w + start + 1 \<le> k \<and> k < 8 * w + start + 1 + n then bit val1 (31 - (k - (8 * w + start + 1)))
       else bit_at out1 k)"
    unfolding pos l1 by simp_all
  show ?case
  proof (intro conjI allI)
    show "length (set_bits_loop out w start (Suc n) val) = length out"
      unfolding step' by (rule IH1)
    fix k
    show "bit_at (set_bits_loop out w start (Suc n) val) k \<longleftrightarrow>
      (if 8 * w + start \<le> k \<and> k < 8 * w + start + Suc n then bit val (31 - (k - (8 * w + start)))
       else bit_at out k)"
    proof (cases "8 * w + start + 1 \<le> k \<and> k < 8 * w + start + 1 + n")
      case True
      define i where "i = k - (8 * w + start + 1)"
      have i: "i < 31" using True n(2) unfolding i_def by linarith
      have e1: "31 - (k - (8 * w + start + 1)) = Suc (30 - i)"
        and e2: "31 - (k - (8 * w + start)) = 30 - i"
        and c: "8 * w + start \<le> k \<and> k < 8 * w + start + Suc n"
        using True i unfolding i_def by linarith+
      have "bit_at (set_bits_loop out1 w' s' n val1) k = bit val1 (31 - (k - (8 * w + start + 1)))"
        unfolding IH2 using True by (simp only: if_True simp_thms)
      also have "\<dots> = bit val (30 - i)"
        unfolding e1 using i by (intro val1) simp
      finally show ?thesis
        unfolding step' using c by (simp only: if_True e2 simp_thms)
    next
      case False
      then show ?thesis
        unfolding step' IH2 by (auto simp add: out1)
    qed
  qed
qed

lemma set_bits_bit:
  assumes "start + n \<le> 8 * length out" "n \<le> 32"
  shows "length (set_bits out start n v) = length out"
    and "bit_at (set_bits out start n v) k \<longleftrightarrow>
      (if start \<le> k \<and> k < start + n then bit v (start + n - 1 - k) else bit_at out k)"
proof -
  have s: "start mod 8 < 8" by simp
  have b: "8 * (start div 8) + start mod 8 + n \<le> 8 * length out"
    unfolding div_mod_8 by (rule assms(1))
  note L = set_bits_loop_bit [OF s b assms(2), of "push_bit (32 - n) v", unfolded div_mod_8,
      folded set_bits_def]
  from L show "length (set_bits out start n v) = length out" by blast
  from L have LK: "bit_at (set_bits out start n v) k \<longleftrightarrow>
      (if start \<le> k \<and> k < start + n then bit (push_bit (32 - n) v) (31 - (k - start))
       else bit_at out k)" by blast
  show "bit_at (set_bits out start n v) k \<longleftrightarrow>
      (if start \<le> k \<and> k < start + n then bit v (start + n - 1 - k) else bit_at out k)"
  proof (cases "start \<le> k \<and> k < start + n")
    case False
    then show ?thesis unfolding LK by (simp only: if_False)
  next
    case True
    then have "32 - n \<le> 31 - (k - start)" "31 - (k - start) < 32"
      "31 - (k - start) - (32 - n) = start + n - 1 - k"
      using assms(2) by linarith+
    then have "bit (push_bit (32 - n) v) (31 - (k - start)) = bit v (start + n - 1 - k)"
      by (simp only: bit_push_bit_iff possible_bit_word) simp
    then show ?thesis unfolding LK using True by (simp only: if_True)
  qed
qed

lemma bit_dig3: "bit (dig3 d pos) i \<longleftrightarrow> i < 3 \<and> bit_at d (pos + 2 - i)"
proof -
  consider "i = 0" | "i = 1" | "i = 2" | "3 \<le> i" by linarith
  then show ?thesis
  proof cases
    case 1
    then show ?thesis
      unfolding dig3_def
      by (simp only: bit_or_iff bit_push_bit_iff bit_of_bool_iff possible_bit_word) simp
  next
    case 2
    then show ?thesis
      unfolding dig3_def
      by (simp only: bit_or_iff bit_push_bit_iff bit_of_bool_iff possible_bit_word) simp
  next
    case 3
    then show ?thesis
      unfolding dig3_def
      by (simp only: bit_or_iff bit_push_bit_iff bit_of_bool_iff possible_bit_word) simp
  next
    case 4
    then show ?thesis
      unfolding dig3_def
      by (simp only: bit_or_iff bit_push_bit_iff bit_of_bool_iff possible_bit_word) auto
  qed
qed

lemma dig3_and_7: "dig3 d pos AND 0x07 = dig3 d pos"
proof (rule bit_word_eqI)
  fix i assume "i < LENGTH(8)"
  then show "bit (dig3 d pos AND 0x07) i \<longleftrightarrow> bit (dig3 d pos) i"
    by (simp only: bit_and_iff bit_dig3 bit_7) auto
qed

lemma dig3_less: "dig3 d pos < 8"
proof -
  have "dig3 d pos AND 0x07 \<le> 0x07" by (rule word_and_le1)
  then have "dig3 d pos \<le> 7" by (simp only: dig3_and_7)
  then show ?thesis by (simp add: word_le_nat_alt word_less_nat_alt)
qed

lemma bit_binary:
  "bit (push_bit 8 (ucast (hi :: byte)) OR ucast (lo :: byte) :: 16 word) k \<longleftrightarrow>
     (if k < 8 then bit lo k else k < 16 \<and> bit hi (k - 8))"
  by (simp only: bit_or_iff bit_push_bit_iff bit_ucast_iff possible_bit_word)
     (auto dest: bit_imp_le_length)

lemma read_digit:
  assumes "c \<le> 13"
  shows "(ucast (drop_bit c (push_bit 8 (ucast (inp ! w)) OR ucast (inp ! Suc w) :: 16 word) AND 0x07) :: byte)
           = dig3 inp (8 * w + 13 - c)"
proof (rule bit_word_eqI)
  fix i assume "i < LENGTH(8)"
  then have i: "i < 8" by simp
  show "bit (ucast (drop_bit c (push_bit 8 (ucast (inp ! w)) OR ucast (inp ! Suc w) :: 16 word) AND 0x07) :: byte) i
      \<longleftrightarrow> bit (dig3 inp (8 * w + 13 - c)) i"
  proof (cases "i < 3")
    case False
    then show ?thesis
      by (simp only: bit_ucast_iff bit_and_iff bit_7 bit_dig3) simp
  next
    case True
    define k where "k = c + i"
    have k: "k \<le> 15" using assms True by (simp add: k_def)
    have pos: "8 * w + 13 - c + 2 - i = 8 * w + 15 - k" using assms True by (simp add: k_def)
    have "bit_at inp (8 * w + 15 - k) = (if k < 8 then bit (inp ! Suc w) k else k < 16 \<and> bit (inp ! w) (k - 8))"
    proof (cases "k < 8")
      case lo: True
      then have "8 * w + 15 - k = 8 * Suc w + (7 - k)" by simp
      moreover have "7 - (7 - k) = k" using lo by simp
      ultimately show ?thesis using lo bit_at_byte [of "7 - k" inp "Suc w"] by simp
    next
      case hi: False
      then have "8 * w + 15 - k = 8 * w + (15 - k)" "15 - k < 8" "7 - (15 - k) = k - 8"
        using k by simp_all
      then show ?thesis using hi k bit_at_byte [of "15 - k" inp w] by simp
    qed
    then have "bit_at inp (8 * w + 13 - c + 2 - i)
        = bit (push_bit 8 (ucast (inp ! w)) OR ucast (inp ! Suc w) :: 16 word) (c + i)"
      unfolding pos bit_binary k_def by simp
    then show ?thesis
      using True i
      by (simp only: bit_ucast_iff bit_and_iff bit_7 bit_dig3 bit_drop_bit_eq) simp
  qed
qed

lemma numoutput_loop_result:
  assumes "c \<le> 13" "p + m < length out"
  shows "numoutput_loop inp w out p (3 * m) (int c) =
    take p out @ map (\<lambda>j. dig3 inp (8 * w + 13 - c + 3 * j) + 0x30) [0..<m] @ [0]
      @ drop (p + m + 1) out"
  using assms
proof (induction m arbitrary: w out p c)
  case 0
  then show ?case
    by (subst numoutput_loop.simps) (simp add: upd_conv_take_nth_drop)
next
  case (Suc m)
  define x where "x = dig3 inp (8 * w + 13 - c) + 0x30"
  define out1 where "out1 = out[p := x]"
  define w' where "w' = (if c < 3 then Suc w else w)"
  define c' where "c' = (if c < 3 then c + 5 else c - 3)"
  have c': "c' \<le> 13" using Suc.prems(1) by (auto simp add: c'_def)
  have pos: "8 * w' + 13 - c' = 8 * w + 13 - c + 3"
    using Suc.prems(1) by (auto simp add: w'_def c'_def)
  have nz: "(3 * Suc m = 0) = False" "3 * Suc m - 3 = 3 * m" by simp_all
  have unf: "numoutput_loop inp w out p (3 * Suc m) (int c) =
      (if int c - 3 < 0 then numoutput_loop inp (Suc w) out1 (Suc p) (3 * m) (int c - 3 + 8)
       else numoutput_loop inp w out1 (Suc p) (3 * m) (int c - 3))"
    unfolding numoutput_loop.simps [of inp w out p "3 * Suc m" "int c"] Let_def nat_int
      read_digit [OF Suc.prems(1)] out1_def x_def
    by (simp only: nz if_False)
  have step: "numoutput_loop inp w out p (3 * Suc m) (int c) = numoutput_loop inp w' out1 (Suc p) (3 * m) (int c')"
  proof (cases "c < 3")
    case True
    then have "int c - 3 < 0" "int c - 3 + 8 = int c'" by (simp_all add: c'_def)
    with True show ?thesis unfolding unf by (simp only: if_True w'_def)
  next
    case False
    then have "\<not> int c - 3 < 0" "int c - 3 = int c'" by (simp_all add: c'_def)
    with False show ?thesis unfolding unf by (simp only: if_False w'_def)
  qed
  have p: "p < length out" "Suc p + m < length out1" using Suc.prems(2) by (simp_all add: out1_def)
  have m: "map (\<lambda>j. dig3 inp (8 * w + 13 - c + 3 * j) + 0x30) [0..<Suc m]
      = x # map (\<lambda>j. dig3 inp (8 * w + 13 - c + 3 + 3 * j) + 0x30) [0..<m]"
  proof -
    have "[0..<Suc m] = 0 # map Suc [0..<m]"
      by (simp add: upt_conv_Cons map_Suc_upt del: upt_Suc)
    then show ?thesis by (simp add: comp_def x_def add.assoc del: upt_Suc)
  qed
  have "take (Suc p) out1 = take p out @ [x]"
    using p(1) by (simp add: out1_def take_Suc_conv_app_nth)
  moreover have "drop (Suc p + m + 1) out1 = drop (p + Suc m + 1) out"
    by (simp add: out1_def)
  ultimately show ?case
    unfolding step Suc.IH [OF c' p(2)] pos m by simp
qed

lemma div8_iff: "(k div 8 = w) = (8 * w \<le> k \<and> k < 8 * w + (8::nat))"
proof -
  define q r where "q = k div 8" and "r = k mod 8"
  have k: "k = 8 * q + r" and r: "r < 8" by (simp_all add: q_def r_def)
  show ?thesis unfolding q_def [symmetric] using k r by auto
qed

lemma bit_low3: "x AND 0x07 = (x::byte) \<Longrightarrow> bit x j \<Longrightarrow> j < 3"
proof -
  assume "x AND 0x07 = x" "bit x j"
  then have "bit (x AND 0x07) j" by simp
  then show ?thesis by (simp only: bit_and_iff bit_7)
qed

lemma bit_decoded:
  "bit (push_bit c (ucast (x::byte)) :: 16 word) n \<longleftrightarrow> c \<le> n \<and> n < 16 \<and> bit x (n - c)"
  by (simp only: bit_push_bit_iff bit_ucast_iff possible_bit_word) (auto dest: bit_imp_le_length)

lemma write_digit:
  fixes x :: byte
  assumes c: "c \<le> 13" and w: "Suc w < length out" and x: "x AND 0x07 = x"
  defines "decoded \<equiv> (push_bit c (ucast x) :: 16 word)"
  defines "out1 \<equiv> out[w := out ! w OR ucast (drop_bit 8 decoded)]"
  defines "out2 \<equiv> out1[Suc w := out1 ! Suc w OR ucast (decoded AND 0xff)]"
  shows "length out2 = length out"
    and "bit_at out2 k \<longleftrightarrow> bit_at out k \<or>
          (8 * w + 13 - c \<le> k \<and> k < 8 * w + 13 - c + 3 \<and> bit x (8 * w + 13 - c + 2 - k))"
proof -
  show "length out2 = length out" by (simp add: out2_def out1_def)
  have w0: "w < length out" and w1: "Suc w < length out1" using w by (simp_all add: out1_def)
  define r where "r = k mod 8"
  have r: "r < 8" by (simp add: r_def)
  have hi: "bit (ucast (drop_bit 8 decoded) :: byte) (7 - r) \<longleftrightarrow> c + r \<le> 15 \<and> bit x (15 - r - c)"
  proof -
    have "bit (ucast (drop_bit 8 decoded) :: byte) (7 - r) = bit decoded (8 + (7 - r))"
      by (simp only: bit_ucast_iff bit_drop_bit_eq) auto
    also have "8 + (7 - r) = 15 - r" using r by simp
    also have "bit decoded (15 - r) = (c \<le> 15 - r \<and> 15 - r < 16 \<and> bit x (15 - r - c))"
      unfolding decoded_def by (rule bit_decoded)
    also have "\<dots> = (c + r \<le> 15 \<and> bit x (15 - r - c))" using r by auto
    finally show ?thesis .
  qed
  have lo: "bit (ucast (decoded AND 0xff) :: byte) (7 - r) \<longleftrightarrow> c + r \<le> 7 \<and> bit x (7 - r - c)"
  proof -
    have "bit (ucast (decoded AND 0xff) :: byte) (7 - r) = bit decoded (7 - r)"
      by (simp only: bit_ucast_iff bit_and_iff bit_ff) auto
    also have "\<dots> = (c \<le> 7 - r \<and> 7 - r < 16 \<and> bit x (7 - r - c))"
      unfolding decoded_def by (rule bit_decoded)
    also have "\<dots> = (c + r \<le> 7 \<and> bit x (7 - r - c))" using r by auto
    finally show ?thesis .
  qed
  consider (a) "k div 8 = w" | (b) "k div 8 = Suc w" | (c) "k div 8 \<noteq> w" "k div 8 \<noteq> Suc w" by blast
  then show "bit_at out2 k \<longleftrightarrow> bit_at out k \<or>
          (8 * w + 13 - c \<le> k \<and> k < 8 * w + 13 - c + 3 \<and> bit x (8 * w + 13 - c + 2 - k))"
  proof cases
    case a
    then have k: "k = 8 * w + r" unfolding r_def by (metis div_mod_8)
    have "bit_at out2 k = bit (out ! w OR ucast (drop_bit 8 decoded)) (7 - r)"
      unfolding out2_def out1_def bit_at_def a r_def [symmetric] using w0 by simp
    also have "\<dots> = (bit_at out k \<or> (c + r \<le> 15 \<and> bit x (15 - r - c)))"
      unfolding bit_or_iff hi by (simp add: bit_at_def a r_def)
    also have "(c + r \<le> 15 \<and> bit x (15 - r - c)) =
       (8 * w + 13 - c \<le> k \<and> k < 8 * w + 13 - c + 3 \<and> bit x (8 * w + 13 - c + 2 - k))"
    proof (cases "c + r \<le> 15")
      case False
      then have "\<not> k < 8 * w + 13 - c + 3" using c k by simp
      with False show ?thesis by simp
    next
      case True
      then have e: "8 * w + 13 - c + 2 - k = 15 - r - c" and u: "k < 8 * w + 13 - c + 3"
        using c k by simp_all
      have "bit x (15 - r - c) \<Longrightarrow> 8 * w + 13 - c \<le> k"
        using bit_low3 [OF x, of "15 - r - c"] True c k by simp
      then show ?thesis using True e u by auto
    qed
    finally show ?thesis .
  next
    case b
    then have k: "k = 8 * Suc w + r" unfolding r_def by (metis div_mod_8)
    have "bit_at out2 k = bit (out ! Suc w OR ucast (decoded AND 0xff)) (7 - r)"
      unfolding out2_def out1_def bit_at_def b r_def [symmetric] using w w0 by simp
    also have "\<dots> = (bit_at out k \<or> (c + r \<le> 7 \<and> bit x (7 - r - c)))"
      unfolding bit_or_iff lo by (simp add: bit_at_def b r_def)
    also have "(c + r \<le> 7 \<and> bit x (7 - r - c)) =
       (8 * w + 13 - c \<le> k \<and> k < 8 * w + 13 - c + 3 \<and> bit x (8 * w + 13 - c + 2 - k))"
    proof (cases "c + r \<le> 7")
      case False
      then have "\<not> k < 8 * w + 13 - c + 3" using c k by simp
      with False show ?thesis by simp
    next
      case True
      then have e: "8 * w + 13 - c + 2 - k = 7 - r - c" and u: "k < 8 * w + 13 - c + 3"
        using c k by simp_all
      have "bit x (7 - r - c) \<Longrightarrow> 8 * w + 13 - c \<le> k"
        using bit_low3 [OF x, of "7 - r - c"] True c k by simp
      then show ?thesis using True e u by auto
    qed
    finally show ?thesis .
  next
    case c
    then have "bit_at out2 k = bit_at out k"
      unfolding out2_def out1_def bit_at_def by simp
    moreover have "\<not> (8 * w + 13 - c \<le> k \<and> k < 8 * w + 13 - c + 3)"
      using c assms(1) unfolding div8_iff [of k w] div8_iff [of k "Suc w"] by auto
    ultimately show ?thesis by blast
  qed
qed

lemma dg_and_7: "dg inp t AND 0x07 = dg inp t"
  by (simp add: dg_def and.assoc)

lemma numinput_loop_result:
  assumes "c \<le> 13"
    and "0 < m \<longrightarrow> 8 * w + 3 * m + 20 \<le> 8 * length out + c \<and> (7 < c \<longrightarrow> w = 0 \<and> 2 \<le> length out)"
  shows "length (numinput_loop inp i out w (3 * m) (int c)) = length out \<and>
    (\<forall>k. bit_at (numinput_loop inp i out w (3 * m) (int c)) k \<longleftrightarrow>
       bit_at out k \<or> (\<exists>j<m. 8 * w + 13 - c + 3 * j \<le> k \<and> k < 8 * w + 13 - c + 3 * j + 3
                           \<and> bit (dg inp (i + j)) (8 * w + 13 - c + 3 * j + 2 - k)))"
  using assms
proof (induction m arbitrary: i out w c)
  case 0
  then show ?case by (subst (1 2) numinput_loop.simps) simp
next
  case (Suc m)
  define x where "x = dg inp i"
  define decoded where "decoded = (push_bit c (ucast x) :: 16 word)"
  define out1 where "out1 = out[w := out ! w OR ucast (drop_bit 8 decoded)]"
  define out2 where "out2 = out1[Suc w := out1 ! Suc w OR ucast (decoded AND 0xff)]"
  define w' where "w' = (if c < 3 then Suc w else w)"
  define c' where "c' = (if c < 3 then c + 5 else c - 3)"
  define pos where "pos = 8 * w + 13 - c"
  have c: "c \<le> 13" by (rule Suc.prems(1))
  have B: "8 * w + 3 * Suc m + 20 \<le> 8 * length out + c" "7 < c \<Longrightarrow> w = 0 \<and> 2 \<le> length out"
    using Suc.prems(2) by simp_all
  have w: "Suc w < length out"
  proof (cases "7 < c")
    case True
    with B(2) show ?thesis by simp
  next
    case False
    with B(1) show ?thesis by simp
  qed
  note W = write_digit [OF c w dg_and_7 [of inp i], folded x_def, folded decoded_def,
      folded out1_def, folded out2_def, folded pos_def]
  have c': "c' \<le> 13" using c by (auto simp add: c'_def)
  have pos': "8 * w' + 13 - c' = pos + 3"
    using c by (auto simp add: w'_def c'_def pos_def)
  have B': "0 < m \<longrightarrow> 8 * w' + 3 * m + 20 \<le> 8 * length out2 + c' \<and> (7 < c' \<longrightarrow> w' = 0 \<and> 2 \<le> length out2)"
    using B c unfolding W(1) by (auto simp add: w'_def c'_def)
  have nz: "(3 * Suc m = 0) = False" "3 * Suc m - 3 = 3 * m" by simp_all
  have unf: "numinput_loop inp i out w (3 * Suc m) (int c) =
      (if int c - 3 < 0 then numinput_loop inp (Suc i) out2 (Suc w) (3 * m) (int c - 3 + 8)
       else numinput_loop inp (Suc i) out2 w (3 * m) (int c - 3))"
    unfolding numinput_loop.simps [of inp i out w "3 * Suc m" "int c"] Let_def nat_int
      out2_def out1_def decoded_def x_def dg_def
    by (simp only: nz if_False)
  have step: "numinput_loop inp i out w (3 * Suc m) (int c) = numinput_loop inp (Suc i) out2 w' (3 * m) (int c')"
  proof (cases "c < 3")
    case True
    then have "int c - 3 < 0" "int c - 3 + 8 = int c'" by (simp_all add: c'_def)
    with True show ?thesis unfolding unf by (simp only: if_True w'_def)
  next
    case False
    then have "\<not> int c - 3 < 0" "int c - 3 = int c'" by (simp_all add: c'_def)
    with False show ?thesis unfolding unf by (simp only: if_False w'_def)
  qed
  from Suc.IH [OF c' B', of "Suc i", unfolded pos' W(1)]
  have IH1: "length (numinput_loop inp (Suc i) out2 w' (3 * m) (int c')) = length out"
    and IH2: "\<And>k. bit_at (numinput_loop inp (Suc i) out2 w' (3 * m) (int c')) k \<longleftrightarrow>
       bit_at out2 k \<or> (\<exists>j<m. pos + 3 + 3 * j \<le> k \<and> k < pos + 3 + 3 * j + 3
                           \<and> bit (dg inp (Suc i + j)) (pos + 3 + 3 * j + 2 - k))"
    by blast+
  have reindex: "(\<exists>j<Suc m. P j) \<longleftrightarrow> P 0 \<or> (\<exists>j<m. P (Suc j))" for P
    by (metis less_Suc_eq_0_disj)
  show ?case
  proof (intro conjI allI)
    show "length (numinput_loop inp i out w (3 * Suc m) (int c)) = length out"
      unfolding step by (rule IH1)
    fix k
    have "(\<exists>j<Suc m. pos + 3 * j \<le> k \<and> k < pos + 3 * j + 3 \<and> bit (dg inp (i + j)) (pos + 3 * j + 2 - k))
      \<longleftrightarrow> (pos \<le> k \<and> k < pos + 3 \<and> bit x (pos + 2 - k))
        \<or> (\<exists>j<m. pos + 3 + 3 * j \<le> k \<and> k < pos + 3 + 3 * j + 3
                           \<and> bit (dg inp (Suc i + j)) (pos + 3 + 3 * j + 2 - k))"
      unfolding reindex by (simp add: x_def add.assoc add.left_commute)
    then show "bit_at (numinput_loop inp i out w (3 * Suc m) (int c)) k \<longleftrightarrow>
       bit_at out k \<or> (\<exists>j<Suc m. 8 * w + 13 - c + 3 * j \<le> k \<and> k < 8 * w + 13 - c + 3 * j + 3
                           \<and> bit (dg inp (i + j)) (8 * w + 13 - c + 3 * j + 2 - k))"
      unfolding step IH2 W(2) pos_def [symmetric] by blast
  qed
qed

lemma digit_char:
  assumes "0x30 \<le> c" "c \<le> 0x37"
  shows "((c::byte) - 0x30) AND 0x07 = c - 0x30"
proof -
  have "unat (c - 0x30) = unat c - unat (0x30 :: byte)"
    using assms(1) by (rule unat_sub)
  moreover have "unat c \<le> 55" using assms(2) by (simp add: word_le_nat_alt)
  ultimately have "unat (c - 0x30) < 8" by simp
  then have "c - 0x30 < 2 ^ 3" by (simp add: word_less_nat_alt)
  then have "(c - 0x30) AND mask 3 = c - 0x30" by (rule less_mask_eq)
  moreover have "mask 3 = (0x07 :: byte)" by (simp add: mask_eq_exp_minus_1)
  ultimately show ?thesis by simp
qed

lemma ceil8: "n \<le> 8 * ((n + 7) div 8)" and ceil8_le: "(n + 7) div 8 \<le> n div 8 + (1::nat)"
  and floor8: "n < 8 * (n div 8) + (8::nat)"
proof -
  define q r where "q = n div 8" and "r = n mod 8"
  have n: "n = 8 * q + r" and r: "r < 8" by (simp_all add: q_def r_def)
  have "(n + 7) div 8 = q + (r + 7) div 8" unfolding n by simp
  moreover have "(r + 7) div 8 = (if r = 0 then 0 else 1)"
  proof (cases "r = 0")
    case True
    then show ?thesis by simp
  next
    case False
    then have "r + 7 = 8 * 1 + (r - 1)" "r - 1 < 8" using r by simp_all
    then have "(r + 7) div 8 = 1" by (simp only: div_mult_self4 div_less)
    with False show ?thesis by simp
  qed
  ultimately have c: "(n + 7) div 8 = (if r = 0 then q else q + 1)" by simp
  show "n \<le> 8 * ((n + 7) div 8)" unfolding c using n r by simp
  show "(n + 7) div 8 \<le> n div 8 + 1" unfolding c q_def [symmetric] by simp
  show "n < 8 * (n div 8) + 8" unfolding q_def [symmetric] using n r by simp
qed

lemma bit_at_zeroed:
  assumes "k < 8 * n"
  shows "bit_at (memset out 0 0 n) k = False"
proof -
  have "k div 8 < n" using assms by (simp add: div8_iff [symmetric] less_mult_imp_div_less mult.commute)
  then show ?thesis by (simp add: bit_at_def memset_def nth_append)
qed

lemma numinput_to_bits_bits:
  assumes L: "3 * m div 8 + 2 \<le> length out"
  shows "length (numinput_to_bits inp out (3 * m)) = length out"
    and "j < m \<Longrightarrow> i < 3 \<Longrightarrow>
          bit_at (numinput_to_bits inp out (3 * m)) (3 * j + i) = bit (dg inp j) (2 - i)"
proof -
  define K where "K = (3 * m + 7) div 8"
  define out0 where "out0 = memset out 0 0 K"
  have K: "K \<le> length out" using ceil8_le [of "3 * m"] L unfolding K_def by simp
  have l0: "length out0 = length out" using K by (simp add: out0_def memset_def)
  have B: "0 < m \<longrightarrow> 8 * 0 + 3 * m + 20 \<le> 8 * length out0 + 13 \<and> ((7::nat) < 13 \<longrightarrow> (0::nat) = 0 \<and> 2 \<le> length out0)"
    using floor8 [of "3 * m"] L unfolding l0 by simp
  have c: "(13::nat) \<le> 13" by simp
  note R = numinput_loop_result [OF c B, of inp 0, folded out0_def, unfolded l0]
  have def: "numinput_to_bits inp out (3 * m) = numinput_loop inp 0 out0 0 (3 * m) (int 13)"
    by (simp add: numinput_to_bits_def out0_def K_def)
  from R show "length (numinput_to_bits inp out (3 * m)) = length out"
    unfolding def by blast
  assume j: "j < m" and i: "i < 3"
  have z: "bit_at out0 (3 * j + i) = False"
    unfolding out0_def
  proof (rule bit_at_zeroed)
    have "3 * j + i < 3 * m" using j i by simp
    also have "\<dots> \<le> 8 * K" unfolding K_def by (rule ceil8)
    finally show "3 * j + i < 8 * K" .
  qed
  have "(\<exists>j'<m. 3 * j' \<le> 3 * j + i \<and> 3 * j + i < 3 * j' + 3 \<and> bit (dg inp j') (3 * j' + 2 - (3 * j + i)))
     \<longleftrightarrow> bit (dg inp j) (2 - i)"
  proof
    assume "\<exists>j'<m. 3 * j' \<le> 3 * j + i \<and> 3 * j + i < 3 * j' + 3 \<and> bit (dg inp j') (3 * j' + 2 - (3 * j + i))"
    then obtain j' where j': "3 * j' \<le> 3 * j + i" "3 * j + i < 3 * j' + 3"
      "bit (dg inp j') (3 * j' + 2 - (3 * j + i))" by blast
    from j'(1,2) i have "j' = j" by simp
    with j'(3) i show "bit (dg inp j) (2 - i)" by simp
  next
    assume "bit (dg inp j) (2 - i)"
    then have "3 * j \<le> 3 * j + i \<and> 3 * j + i < 3 * j + 3 \<and> bit (dg inp j) (3 * j + 2 - (3 * j + i))"
      using i by simp
    with j show "\<exists>j'<m. 3 * j' \<le> 3 * j + i \<and> 3 * j + i < 3 * j' + 3 \<and> bit (dg inp j') (3 * j' + 2 - (3 * j + i))"
      by blast
  qed
  with R z show "bit_at (numinput_to_bits inp out (3 * m)) (3 * j + i) = bit (dg inp j) (2 - i)"
    unfolding def by simp
qed

lemma bits_to_numoutput_result:
  assumes "p + m < length out"
  shows "bits_to_numoutput inp out p (3 * m) =
    take p out @ map (\<lambda>j. dig3 inp (3 * j) + 0x30) [0..<m] @ [0] @ drop (p + m + 1) out"
proof -
  have c: "(13::nat) \<le> 13" by simp
  from numoutput_loop_result [OF c assms, of inp 0] show ?thesis
    by (simp add: bits_to_numoutput_def)
qed

lemma dig3_eqI:
  assumes "x AND 0x07 = x" and "\<And>i. i < 3 \<Longrightarrow> bit_at d (pos + i) = bit x (2 - i)"
  shows "dig3 d pos = x"
proof (rule bit_word_eqI)
  fix i assume "i < LENGTH(8)"
  show "bit (dig3 d pos) i \<longleftrightarrow> bit x i"
  proof (cases "i < 3")
    case True
    then have "pos + 2 - i = pos + (2 - i)" "2 - i < 3" "2 - (2 - i) = i" by simp_all
    with assms(2) [of "2 - i"] True show ?thesis by (simp add: bit_dig3)
  next
    case False
    with bit_low3 [OF assms(1), of i] show ?thesis by (auto simp add: bit_dig3)
  qed
qed

lemma cstring_append_nul: "\<forall>c\<in>set s. c \<noteq> 0 \<Longrightarrow> cstring (s @ 0 # rest) = s"
  unfolding cstring_def by (induction s) simp_all

lemma numoutput_of_numinput:
  assumes L: "3 * m div 8 + 2 \<le> length buf" and j: "j < m"
  shows "dig3 (numinput_to_bits inp buf (3 * m)) (3 * j) = dg inp j"
  using numinput_to_bits_bits(2) [OF L j] by (intro dig3_eqI dg_and_7) simp

text \<open>
  C10. For every string \<open>ds\<close> of characters in \<open>'0'..'7'\<close>, of length \<open>n\<close>, \<open>numinput_to_bits\<close>
  with \<open>n_bits = 3 * n\<close> followed by \<open>bits_to_numoutput\<close> with the same \<open>n_bits\<close> returns the
  original digit string: the output buffer holds \<open>ds\<close> and its terminating NUL from the
  position written to, the rest of it is unchanged, and the C string read there is \<open>ds\<close>.
  The hypotheses besides the one on the characters say that the calls are well defined in
  C: \<open>n_bits + 7\<close> fits the \<open>unsigned int\<close>, the bit buffer has the \<open>n_bits / 8 + 2\<close> bytes that
  the two loops touch, and the output buffer has room for \<open>n\<close> characters and the NUL.
\<close>

theorem bit_codec_round_trip:
  assumes dig: "\<forall>c\<in>set ds. 0x30 \<le> c \<and> c \<le> 0x37"
    and u: "3 * length ds + 7 < 2 ^ 32"
    and L: "3 * length ds div 8 + 2 \<le> length buf"
    and p: "p + length ds < length out"
  shows "bits_to_numoutput (numinput_to_bits ds buf (3 * length ds)) out p (3 * length ds)
           = take p out @ ds @ [0] @ drop (p + length ds + 1) out
         \<and> cstring (drop p (bits_to_numoutput (numinput_to_bits ds buf (3 * length ds)) out p
               (3 * length ds))) = ds"
proof -
  define r where "r = numinput_to_bits ds buf (3 * length ds)"
  have "map (\<lambda>j. dig3 r (3 * j) + 0x30) [0..<length ds] = ds"
  proof (rule nth_equalityI)
    show "length (map (\<lambda>j. dig3 r (3 * j) + 0x30) [0..<length ds]) = length ds" by simp
    fix j assume "j < length (map (\<lambda>j. dig3 r (3 * j) + 0x30) [0..<length ds])"
    then have j: "j < length ds" by simp
    then have c: "0x30 \<le> ds ! j" "ds ! j \<le> 0x37" using dig by simp_all
    have "dig3 r (3 * j) = dg ds j"
      unfolding r_def by (rule numoutput_of_numinput [OF L j])
    also have "\<dots> = ds ! j - 0x30"
      using j digit_char [OF c] by (simp add: dg_def cstr_nth_def)
    finally show "map (\<lambda>j. dig3 r (3 * j) + 0x30) [0..<length ds] ! j = ds ! j"
      using j by simp
  qed
  then have res: "bits_to_numoutput r out p (3 * length ds)
           = take p out @ ds @ [0] @ drop (p + length ds + 1) out"
    unfolding bits_to_numoutput_result [OF p] by simp
  have nz: "\<forall>c\<in>set ds. c \<noteq> 0" using dig by auto
  have "length (take p out) = p" using p by simp
  then have "drop p (take p out @ ds @ [0] @ drop (p + length ds + 1) out)
      = ds @ 0 # drop (p + length ds + 1) out" by simp
  then have "cstring (drop p (bits_to_numoutput r out p (3 * length ds))) = ds"
    unfolding res using cstring_append_nul [OF nz] by simp
  with res show ?thesis unfolding r_def by simp
qed

theorem bit_codec_round_trip_witness:
  "bits_to_numoutput (numinput_to_bits [0x30, 0x31, 0x32, 0x33, 0x34, 0x35, 0x36, 0x37]
       (replicate 5 0xaa) 24) (replicate 12 0xee) 2 24
     = [0xee, 0xee, 0x30, 0x31, 0x32, 0x33, 0x34, 0x35, 0x36, 0x37, 0, 0xee]
   \<and> cstring (drop 2 (bits_to_numoutput (numinput_to_bits
       [0x30, 0x31, 0x32, 0x33, 0x34, 0x35, 0x36, 0x37] (replicate 5 0xaa) 24)
       (replicate 12 0xee) 2 24))
     = [0x30, 0x31, 0x32, 0x33, 0x34, 0x35, 0x36, 0x37]
   \<and> numinput_to_bits [0x30, 0x31, 0x32, 0x33, 0x34, 0x35, 0x36, 0x37] (replicate 5 0xaa) 24
     = [0x05, 0x39, 0x77, 0xaa, 0xaa]"
proof -
  define ds :: "byte list" where "ds = [0x30, 0x31, 0x32, 0x33, 0x34, 0x35, 0x36, 0x37]"
  have n: "length ds = 8" by (simp add: ds_def)
  have d: "\<forall>c\<in>set ds. 0x30 \<le> c \<and> c \<le> 0x37" by (simp add: ds_def)
  have u: "3 * length ds + 7 < 2 ^ 32" by (simp add: n)
  have L: "3 * length ds div 8 + 2 \<le> length (replicate 5 (0xaa::byte))" by (simp add: n)
  have p: "2 + length ds < length (replicate 12 (0xee::byte))" by (simp add: n)
  have e: "take 2 (replicate 12 (0xee::byte)) @ ds @ [0] @ drop (2 + 8 + 1) (replicate 12 0xee)
      = [0xee, 0xee, 0x30, 0x31, 0x32, 0x33, 0x34, 0x35, 0x36, 0x37, 0, 0xee]"
    unfolding ds_def by code_simp
  have b: "numinput_to_bits [0x30, 0x31, 0x32, 0x33, 0x34, 0x35, 0x36, 0x37] (replicate 5 0xaa) 24
     = [0x05, 0x39, 0x77, 0xaa, 0xaa]"
    by code_simp
  have t: "3 * (8::nat) = 24" by simp
  note r = bit_codec_round_trip [OF d u L p, unfolded n t e]
  from r b show ?thesis unfolding ds_def by blast
qed

section \<open>The codec round trip\<close>

text \<open>
  A field read by \<open>get_bits\<close> depends on the bits of its range only, \<open>set_bits\<close> writes the
  low bits of its value there and leaves every other bit alone.
\<close>

lemma get_bits_cong:
  assumes "\<And>k. start \<le> k \<Longrightarrow> k < start + n \<Longrightarrow> bit_at d k = bit_at d' k"
  shows "get_bits d start n = get_bits d' start n"
proof (rule bit_word_eqI)
  fix j assume "j < LENGTH(32)"
  then have j: "j < 32" by simp
  show "bit (get_bits d start n) j \<longleftrightarrow> bit (get_bits d' start n) j"
  proof (cases "j < n")
    case True
    then have "start \<le> start + n - 1 - j" "start + n - 1 - j < start + n" by simp_all
    from assms [OF this] show ?thesis unfolding get_bits_bit [OF j] by simp
  next
    case False
    then show ?thesis unfolding get_bits_bit [OF j] by simp
  qed
qed

lemma get_bits_set_bits:
  assumes "start + n \<le> 8 * length d" "n \<le> 32"
  shows "get_bits (set_bits d start n v) start n = take_bit n v"
proof (rule bit_word_eqI)
  fix j assume "j < LENGTH(32)"
  then have j: "j < 32" by simp
  show "bit (get_bits (set_bits d start n v) start n) j \<longleftrightarrow> bit (take_bit n v) j"
  proof (cases "j < n")
    case True
    then have "start \<le> start + n - 1 - j" "start + n - 1 - j < start + n"
      "start + n - 1 - (start + n - 1 - j) = j" by simp_all
    then show ?thesis
      unfolding get_bits_bit [OF j] set_bits_bit(2) [OF assms] bit_take_bit_iff
      using True by simp
  next
    case False
    then show ?thesis unfolding get_bits_bit [OF j] bit_take_bit_iff by simp
  qed
qed

lemma get_bits_set_bits_other:
  assumes "start + n \<le> 8 * length d" "n \<le> 32" "s' + n' \<le> start \<or> start + n \<le> s'"
  shows "get_bits (set_bits d start n v) s' n' = get_bits d s' n'"
proof (rule get_bits_cong)
  fix k assume "s' \<le> k" "k < s' + n'"
  with assms(3) have "\<not> (start \<le> k \<and> k < start + n)" by auto
  then show "bit_at (set_bits d start n v) k = bit_at d k"
    unfolding set_bits_bit(2) [OF assms(1,2)] by auto
qed

lemma take_bytes_cong:
  assumes b: "\<And>k. k < 8 * m \<Longrightarrow> bit_at d k = bit_at d' k"
    and "m \<le> length d" "m \<le> length d'"
  shows "take m d = take m d'"
proof (rule nth_equalityI)
  show "length (take m d) = length (take m d')" using assms(2,3) by simp
  fix i assume "i < length (take m d)"
  then have i: "i < m" by simp
  have "d ! i = d' ! i"
  proof (rule bit_word_eqI)
    fix j assume "j < LENGTH(8)"
    then have j: "7 - j < 8" "7 - (7 - j) = j" by simp_all
    have "8 * i + (7 - j) < 8 * m" using i by simp
    from b [OF this] show "bit (d ! i) j \<longleftrightarrow> bit (d' ! i) j"
      unfolding bit_at_byte [OF j(1)] j(2) .
  qed
  then show "take m d ! i = take m d' ! i" using i by simp
qed

lemma take_set_bits:
  assumes "start + n \<le> 8 * length d" "n \<le> 32" "8 * m \<le> start"
  shows "take m (set_bits d start n v) = take m d"
proof (rule take_bytes_cong)
  fix k assume "k < 8 * m"
  with assms(3) have "\<not> (start \<le> k \<and> k < start + n)" by simp
  then show "bit_at (set_bits d start n v) k = bit_at d k"
    unfolding set_bits_bit(2) [OF assms(1,2)] by auto
next
  show "m \<le> length (set_bits d start n v)" "m \<le> length d"
    unfolding set_bits_bit(1) [OF assms(1,2)] using assms(1,3) by simp_all
qed

text \<open>
  Reading with \<open>numinput_to_bits\<close> the digits that \<open>bits_to_numoutput\<close> wrote gives the bits
  back, whatever follows the digits in the string.
\<close>

lemma numinput_of_numoutput_bits:
  assumes L: "3 * m div 8 + 2 \<le> length buf" and k: "k < 3 * m"
  shows "bit_at (numinput_to_bits (map (\<lambda>j. dig3 d (3 * j) + 0x30) [0..<m] @ rest) buf (3 * m)) k
           = bit_at d k"
proof -
  define j i where "j = k div 3" and "i = k mod 3"
  have ji: "k = 3 * j + i" "i < 3" "j < m" using k by (simp_all add: j_def i_def)
  have "dg (map (\<lambda>j. dig3 d (3 * j) + 0x30) [0..<m] @ rest) j = dig3 d (3 * j)"
    using ji(3) by (simp add: dg_def cstr_nth_def nth_append dig3_and_7)
  moreover have "bit (dig3 d (3 * j)) (2 - i) = bit_at d (3 * j + i)"
    unfolding bit_dig3 using ji(2) by auto
  ultimately show ?thesis
    unfolding ji(1) numinput_to_bits_bits(2) [OF L ji(3) ji(2)] by simp
qed

lemma ucast_field:
  "(ucast (take_bit n (ucast (x::16 word) :: 32 word)) :: 16 word) = take_bit n x"
  by (rule bit_word_eqI) (auto simp add: bit_ucast_iff bit_take_bit_iff)

lemma shortmac_15_bits: "take_bit 15 (securid_shortmac aes inp) = securid_shortmac aes inp"
proof (rule bit_word_eqI)
  fix j assume "j < LENGTH(16)"
  then have j: "j < 16" by simp
  show "bit (take_bit 15 (securid_shortmac aes inp)) j \<longleftrightarrow> bit (securid_shortmac aes inp) j"
    unfolding securid_shortmac_def Let_def
    using j by (auto simp add: bit_take_bit_iff bit_or_iff bit_push_bit_iff bit_drop_bit_eq bit_ucast_iff
        dest: bit_imp_le_length)
qed

lemma generate_key_hash_Inr:
  assumes "generate_key_hash aes h p dv sp = Inr (kh, dh)"
  shows "\<exists>x y. kh = securid_mac aes x \<and> dh = securid_shortmac aes y"
  using assms by (auto simp add: generate_key_hash_def Let_def split: sum.splits prod.splits)

lemma dig3_char: "0x30 \<le> dig3 d p + 0x30 \<and> dig3 d p + 0x30 \<le> 0x37"
proof -
  have "unat (dig3 d p) < 8" using dig3_less [of d p] by (simp add: word_less_nat_alt)
  then have "unat (dig3 d p + 0x30) = unat (dig3 d p) + 48"
    by (simp add: unat_word_ariths)
  with \<open>unat (dig3 d p) < 8\<close> show ?thesis by (simp add: word_le_nat_alt)
qed

lemma dig3_char_nonzero: "dig3 d p + 0x30 \<noteq> 0"
  using dig3_char [of d p] by auto

lemma memcpy_prefix:
  "n \<le> length dst \<Longrightarrow> length src = n \<Longrightarrow> memcpy dst 0 src n = src @ drop n dst"
  by (simp add: memcpy_def)


lemma encode_token_result:
  assumes bf: "block_fun aes"
    and N: "25 \<le> MAX_TOKEN_BITS h div 8 + 2"
    and ser: "length (serial t) = 12"
    and seed: "length (dec_seed t) = 16"
    and out: "82 \<le> length out"
    and enc: "securid_encode_token aes h t pass devid out = Inr (out', newt)"
  shows "\<exists>d5. length d5 = MAX_TOKEN_BITS h div 8 + 2
      \<and> take 16 d5 = enc_seed newt \<and> length (enc_seed newt) = 16
      \<and> get_bits d5 128 16 = take_bit 16 (ucast (flags newt))
      \<and> get_bits d5 144 14 = take_bit 14 (ucast (exp_date newt))
      \<and> get_bits d5 159 15 = take_bit 15 (ucast (securid_shortmac aes (dec_seed t)))
      \<and> get_bits d5 174 15 = take_bit 15 (ucast (device_id_hash newt))
      \<and> take_bit 15 (device_id_hash newt) = device_id_hash newt
      \<and> serial newt = serial t \<and> exp_date newt = exp_date t \<and> dec_seed newt = dec_seed t
      \<and> dec_seed_hash newt = dec_seed_hash t
      \<and> out' = (0x32 # serial t @ map (\<lambda>j. dig3 d5 (3 * j) + 0x30) [0..<63])
           @ map (\<lambda>j. dig3 (set_bits d5 0 15 (ucast (securid_shortmac aes
                   (0x32 # serial t @ map (\<lambda>j. dig3 d5 (3 * j) + 0x30) [0..<63])))) (3 * j) + 0x30) [0..<5]
           @ [0] @ drop 82 out"
proof -
  define pass' where "pass' = (case pass of None \<Rightarrow> None
     | Some pw \<Rightarrow> if length pw = 0 then None else Some pw)"
  define devid' where "devid' = (case devid of None \<Rightarrow> None
     | Some dv \<Rightarrow> if length dv = 0 then None else Some dv)"
  obtain kh dh where g: "generate_key_hash aes h pass' devid' (is_smartphone t) = Inr (kh, dh)"
    using enc unfolding securid_encode_token_def Let_def pass'_def devid'_def
    by (cases "generate_key_hash aes h
          (case pass of None \<Rightarrow> None | Some pw \<Rightarrow> if length pw = 0 then None else Some pw)
          (case devid of None \<Rightarrow> None | Some dv \<Rightarrow> if length dv = 0 then None else Some dv)
          (is_smartphone t)") auto
  from generate_key_hash_Inr [OF g] obtain x y where
    kh: "kh = securid_mac aes x" and dh: "dh = securid_shortmac aes y" by blast
  have lkh: "length kh = 16" unfolding kh by (rule securid_mac_length [OF bf])
  define F1 where "F1 = (if pass' \<noteq> None then flags t OR FL_PASSPROT h
     else flags t AND NOT (FL_PASSPROT h))"
  define F where "F = (if devid' \<noteq> None then F1 OR FL_SNPROT h else F1 AND NOT (FL_SNPROT h))"
  define ES where "ES = aes128_ecb_encrypt aes kh (dec_seed t)"
  define nt where "nt = t\<lparr>flags := F, enc_seed := ES, device_id_hash := dh\<rparr>"
  define n where "n = MAX_TOKEN_BITS h div 8 + 2"
  define M where "M = securid_shortmac aes (take 16 (dec_seed t))"
  define d1 where "d1 = memcpy (replicate n 0) 0 ES 16"
  define d2 where "d2 = set_bits d1 128 16 (ucast F)"
  define d3 where "d3 = set_bits d2 144 14 (ucast (exp_date t))"
  define d4 where "d4 = set_bits d3 159 15 (ucast M)"
  define d5 where "d5 = set_bits d4 174 15 (ucast dh)"
  define o1 where "o1 = memcpy out 0 (0x32 # serial t @ [0]) (length (serial t) + 2)"
  define o2 where "o2 = bits_to_numoutput d5 o1 13 189"
  define d6 where "d6 = set_bits d5 0 15 (ucast (securid_shortmac aes (take 76 o2)))"
  define o3 where "o3 = bits_to_numoutput d6 o2 76 15"
  have "securid_encode_token aes h t pass devid out = Inr (o3, nt)"
    unfolding securid_encode_token_def Let_def pass'_def [symmetric] devid'_def [symmetric] g
    by (simp add: o3_def d6_def o2_def o1_def d5_def d4_def d3_def d2_def d1_def M_def nt_def
        ES_def F_def F1_def n_def)
  with enc have o': "out' = o3" and nt': "newt = nt" by simp_all
  have lES: "length ES = 16"
    unfolding ES_def using aes128_ecb_encrypt_length [OF bf, of kh "dec_seed t"] lkh seed by simp
  have n25: "25 \<le> n" using N by (simp add: n_def)
  have d1: "d1 = ES @ replicate (n - 16) 0"
    unfolding d1_def using memcpy_prefix [of 16 "replicate n 0" ES] lES n25 by simp
  have l1: "length d1 = n" unfolding d1 using lES n25 by simp
  have t1: "take 16 d1 = ES" unfolding d1 using lES by simp
  have b2: "128 + 16 \<le> 8 * length d1" "(16::nat) \<le> 32" using l1 n25 by simp_all
  have l2: "length d2 = n" unfolding d2_def set_bits_bit(1) [OF b2] by (rule l1)
  have b3: "144 + 14 \<le> 8 * length d2" "(14::nat) \<le> 32" using l2 n25 by simp_all
  have l3: "length d3 = n" unfolding d3_def set_bits_bit(1) [OF b3] by (rule l2)
  have b4: "159 + 15 \<le> 8 * length d3" "(15::nat) \<le> 32" using l3 n25 by simp_all
  have l4: "length d4 = n" unfolding d4_def set_bits_bit(1) [OF b4] by (rule l3)
  have b5: "174 + 15 \<le> 8 * length d4" "(15::nat) \<le> 32" using l4 n25 by simp_all
  have l5: "length d5 = n" unfolding d5_def set_bits_bit(1) [OF b5] by (rule l4)
  have t5: "take 16 d5 = ES"
    unfolding d5_def d4_def d3_def d2_def
    using take_set_bits [OF b5, of 16] take_set_bits [OF b4, of 16] take_set_bits [OF b3, of 16]
      take_set_bits [OF b2, of 16] t1
    by (simp add: d4_def d3_def d2_def)
  have g1: "get_bits d5 128 16 = take_bit 16 (ucast F)"
    using get_bits_set_bits_other [OF b5, of 128 16] get_bits_set_bits_other [OF b4, of 128 16]
      get_bits_set_bits_other [OF b3, of 128 16] get_bits_set_bits [OF b2]
    by (simp add: d5_def d4_def d3_def d2_def)
  have g2: "get_bits d5 144 14 = take_bit 14 (ucast (exp_date t))"
    using get_bits_set_bits_other [OF b5, of 144 14] get_bits_set_bits_other [OF b4, of 144 14]
      get_bits_set_bits [OF b3]
    by (simp add: d5_def d4_def d3_def)
  have g3: "get_bits d5 159 15 = take_bit 15 (ucast M)"
    using get_bits_set_bits_other [OF b5, of 159 15] get_bits_set_bits [OF b4]
    by (simp add: d5_def d4_def)
  have g4: "get_bits d5 174 15 = take_bit 15 (ucast dh)"
    using get_bits_set_bits [OF b5] by (simp add: d5_def)
  define D where "D = map (\<lambda>j. dig3 d5 (3 * j) + 0x30) [0..<63]"
  have lD: "length D = 63" by (simp add: D_def)
  have o1: "o1 = (0x32 # serial t) @ 0 # drop 14 out"
    unfolding o1_def using memcpy_prefix [of 14 out "0x32 # serial t @ [0]"] out ser by simp
  have lo1: "length o1 = length out" unfolding o1 using out ser by simp
  have p1: "13 + 63 < length o1" using lo1 out by simp
  have "o2 = take 13 o1 @ D @ [0] @ drop (13 + 63 + 1) o1"
    using bits_to_numoutput_result [OF p1, of d5] by (simp add: o2_def D_def)
  moreover have "take 13 o1 = 0x32 # serial t" unfolding o1 using ser by simp
  moreover have "drop (13 + 63 + 1) o1 = drop 77 out" unfolding o1 using ser by simp
  ultimately have o2: "o2 = (0x32 # serial t @ D) @ 0 # drop 77 out" by simp
  have lP: "length (0x32 # serial t @ D) = 76" using ser lD by simp
  have lo2: "length o2 = length out" unfolding o2 using lP out by simp
  have t76: "take 76 o2 = 0x32 # serial t @ D" unfolding o2 using lP by simp
  have p2: "76 + 5 < length o2" using lo2 out by simp
  have "o3 = take 76 o2 @ map (\<lambda>j. dig3 d6 (3 * j) + 0x30) [0..<5] @ [0] @ drop (76 + 5 + 1) o2"
    using bits_to_numoutput_result [OF p2, of d6] by (simp add: o3_def)
  moreover have "drop (76 + 5 + 1) o2 = drop 82 out" unfolding o2 using lP by simp
  ultimately have o3: "o3 = (0x32 # serial t @ D) @ map (\<lambda>j. dig3 d6 (3 * j) + 0x30) [0..<5]
      @ [0] @ drop 82 out"
    unfolding t76 by simp
  have dh15: "take_bit 15 dh = dh" unfolding dh by (rule shortmac_15_bits)
  have M: "M = securid_shortmac aes (dec_seed t)" unfolding M_def using seed by simp
  show ?thesis
  proof (intro exI [of _ d5] conjI)
    show "length d5 = MAX_TOKEN_BITS h div 8 + 2" using l5 by (simp add: n_def)
    show "take 16 d5 = enc_seed newt" using t5 by (simp add: nt' nt_def)
    show "length (enc_seed newt) = 16" using lES by (simp add: nt' nt_def)
    show "get_bits d5 128 16 = take_bit 16 (ucast (flags newt))" using g1 by (simp add: nt' nt_def)
    show "get_bits d5 144 14 = take_bit 14 (ucast (exp_date newt))" using g2 by (simp add: nt' nt_def)
    show "get_bits d5 159 15 = take_bit 15 (ucast (securid_shortmac aes (dec_seed t)))"
      using g3 unfolding M .
    show "get_bits d5 174 15 = take_bit 15 (ucast (device_id_hash newt))"
      using g4 by (simp add: nt' nt_def)
    show "take_bit 15 (device_id_hash newt) = device_id_hash newt"
      using dh15 by (simp add: nt' nt_def)
    show "serial newt = serial t" "exp_date newt = exp_date t" "dec_seed newt = dec_seed t"
      "dec_seed_hash newt = dec_seed_hash t" by (simp_all add: nt' nt_def)
    show "out' = (0x32 # serial t @ map (\<lambda>j. dig3 d5 (3 * j) + 0x30) [0..<63])
           @ map (\<lambda>j. dig3 (set_bits d5 0 15 (ucast (securid_shortmac aes
                   (0x32 # serial t @ map (\<lambda>j. dig3 d5 (3 * j) + 0x30) [0..<63])))) (3 * j) + 0x30) [0..<5]
           @ [0] @ drop 82 out"
      unfolding o' o3 d6_def t76 D_def ..
  qed
qed

text \<open>What \<open>securid_decode_token\<close> reads from such a string.\<close>

lemma decode_of_encoded:
  fixes s :: "byte list" and aes :: cipher and d5 rest :: "byte list"
  assumes hdr: "MIN_TOKEN_CHARS h \<le> 81" "81 \<le> MAX_TOKEN_CHARS h"
    and ser: "length s = 12" "\<forall>c\<in>set s. c \<noteq> 0"
    and l5: "25 \<le> length d5"
    and l0: "25 \<le> length d0"
  defines "P \<equiv> 0x32 # s @ map (\<lambda>j. dig3 d5 (3 * j) + 0x30) [0..<63]"
  defines "d6 \<equiv> set_bits d5 0 15 (ucast (securid_shortmac aes P))"
  defines "outp \<equiv> P @ map (\<lambda>j. dig3 d6 (3 * j) + 0x30) [0..<5] @ [0] @ rest"
  shows "securid_decode_token aes h (cstring outp) d0 t0
    = (ERR_NONE, zero_token\<lparr>serial := s, enc_seed := take 16 d5, has_enc_seed := True,
         flags := ucast (get_bits d5 128 16), exp_date := ucast (get_bits d5 144 14),
         dec_seed_hash := ucast (get_bits d5 159 15),
         device_id_hash := ucast (get_bits d5 174 15)\<rparr>)"
    and "length (cstring outp) = 81" and "cstring outp ! 0 = 0x32"
proof -
  define D where "D = map (\<lambda>j. dig3 d5 (3 * j) + 0x30) [0..<63]"
  define C where "C = map (\<lambda>j. dig3 d6 (3 * j) + 0x30) [0..<5]"
  define mac where "mac = securid_shortmac aes P"
  have lD: "length D = 63" and lC: "length C = 5" by (simp_all add: D_def C_def)
  have P: "P = 0x32 # s @ D" by (simp add: P_def D_def)
  have lP: "length P = 76" unfolding P using ser(1) lD by simp
  have nzD: "\<forall>c\<in>set D. c \<noteq> 0" unfolding D_def using dig3_char_nonzero by auto
  have nzC: "\<forall>c\<in>set C. c \<noteq> 0" unfolding C_def using dig3_char_nonzero by auto
  have nz: "\<forall>c\<in>set (P @ C). c \<noteq> 0" unfolding P using ser(2) nzD nzC by auto
  have "outp = (P @ C) @ 0 # rest" by (simp add: outp_def C_def)
  then have inp: "cstring outp = P @ C" using cstring_append_nul [OF nz] by simp
  define I where "I = P @ C"
  have inpI: "cstring outp = I" unfolding I_def by (rule inp)
  have len: "length I = 81" unfolding I_def using lP lC by simp
  have c0: "cstr_nth I 0 = 0x32" by (simp add: cstr_nth_def P I_def)
  have dr: "drop 76 I = C" and tk: "take 76 I = P" unfolding I_def using lP by simp_all
  have sr: "take 12 (drop (Suc 0) I) = s" unfolding P I_def using ser(1) by simp
  have dr13: "drop 13 I = D @ C" unfolding P I_def using ser(1) by simp
  define dA where "dA = numinput_to_bits C d0 15"
  define dB where "dB = numinput_to_bits (D @ C) dA 189"
  have LA: "3 * 5 div 8 + 2 \<le> length d0" using l0 by simp
  have lA: "length dA = length d0"
    unfolding dA_def using numinput_to_bits_bits(1) [OF LA, of C] by simp
  have LB: "3 * 63 div 8 + 2 \<le> length dA" using l0 lA by simp
  have lB: "length dB = length d0"
    unfolding dB_def using numinput_to_bits_bits(1) [OF LB, of "D @ C"] lA by simp
  have bA: "bit_at dA k = bit_at d6 k" if "k < 15" for k
  proof -
    from that have k: "k < 3 * 5" by simp
    from numinput_of_numoutput_bits [OF LA k, of d6 "[]"] show ?thesis
      by (simp add: dA_def C_def)
  qed
  have bB: "bit_at dB k = bit_at d5 k" if "k < 189" for k
  proof -
    from that have k: "k < 3 * 63" by simp
    from numinput_of_numoutput_bits [OF LB k, of d5 C] show ?thesis
      by (simp add: dB_def D_def)
  qed
  have b6: "0 + 15 \<le> 8 * length d5" "(15::nat) \<le> 32" using l5 by simp_all
  have "get_bits dA 0 15 = get_bits d6 0 15"
    by (rule get_bits_cong) (simp add: bA)
  also have "\<dots> = take_bit 15 (ucast mac)"
    unfolding d6_def mac_def by (rule get_bits_set_bits [OF b6])
  finally have "(ucast (get_bits dA 0 15) :: 16 word) = take_bit 15 mac"
    by (simp only: ucast_field)
  then have ck: "(ucast (get_bits dA 0 15) :: 16 word) = securid_shortmac aes P"
    unfolding mac_def shortmac_15_bits .
  have f1: "get_bits dB 128 16 = get_bits d5 128 16" by (rule get_bits_cong) (simp add: bB)
  have f2: "get_bits dB 144 14 = get_bits d5 144 14" by (rule get_bits_cong) (simp add: bB)
  have f3: "get_bits dB 159 15 = get_bits d5 159 15" by (rule get_bits_cong) (simp add: bB)
  have f4: "get_bits dB 174 15 = get_bits d5 174 15" by (rule get_bits_cong) (simp add: bB)
  have es: "take 16 dB = take 16 d5"
    by (rule take_bytes_cong) (use bB lB l0 l5 in simp_all)
  show "securid_decode_token aes h (cstring outp) d0 t0
    = (ERR_NONE, zero_token\<lparr>serial := s, enc_seed := take 16 d5, has_enc_seed := True,
         flags := ucast (get_bits d5 128 16), exp_date := ucast (get_bits d5 144 14),
         dec_seed_hash := ucast (get_bits d5 159 15),
         device_id_hash := ucast (get_bits d5 174 15)\<rparr>)"
    unfolding inpI securid_decode_token_def Let_def len
    using hdr c0 ck f1 f2 f3 f4 es
    by (simp add: dr tk sr dr13 dA_def [symmetric] dB_def [symmetric])
  show "length (cstring outp) = 81" unfolding inpI by (rule len)
  show "cstring outp ! 0 = 0x32" unfolding inp P by simp
qed

lemma decode_encode_fields:
  assumes bf: "block_fun aes"
    and hdr: "184 \<le> MAX_TOKEN_BITS h" "MIN_TOKEN_CHARS h \<le> 81" "81 \<le> MAX_TOKEN_CHARS h"
    and ser: "length (serial t) = 12" "\<forall>c\<in>set (serial t). isdigit c"
    and seed: "length (dec_seed t) = 16"
    and exp: "exp_date t < 2 ^ 14"
    and out: "82 \<le> length out"
    and d0: "length d0 = MAX_TOKEN_BITS h div 8 + 2"
    and enc: "securid_encode_token aes h t pass devid out = Inr (out', newt)"
  shows "securid_decode_token aes h (cstring out') d0 t0
    = (ERR_NONE, zero_token\<lparr>serial := serial newt, enc_seed := enc_seed newt,
         has_enc_seed := True, flags := flags newt, exp_date := exp_date newt,
         dec_seed_hash := securid_shortmac aes (dec_seed newt),
         device_id_hash := device_id_hash newt\<rparr>)"
    and "length (cstring out') = 81" and "cstring out' ! 0 = 0x32" and "out' ! 0 = 0x32"
    and "dec_seed_hash newt = dec_seed_hash t" and "dec_seed newt = dec_seed t"
proof -
  have N: "25 \<le> MAX_TOKEN_BITS h div 8 + 2" using hdr(1) by simp
  from encode_token_result [OF bf N ser(1) seed out enc] obtain d5 where
    l5: "length d5 = MAX_TOKEN_BITS h div 8 + 2"
    and es: "take 16 d5 = enc_seed newt"
    and g1: "get_bits d5 128 16 = take_bit 16 (ucast (flags newt))"
    and g2: "get_bits d5 144 14 = take_bit 14 (ucast (exp_date newt))"
    and g3: "get_bits d5 159 15 = take_bit 15 (ucast (securid_shortmac aes (dec_seed t)))"
    and g4: "get_bits d5 174 15 = take_bit 15 (ucast (device_id_hash newt))"
    and dh: "take_bit 15 (device_id_hash newt) = device_id_hash newt"
    and same: "serial newt = serial t" "exp_date newt = exp_date t" "dec_seed newt = dec_seed t"
      "dec_seed_hash newt = dec_seed_hash t"
    and o': "out' = (0x32 # serial t @ map (\<lambda>j. dig3 d5 (3 * j) + 0x30) [0..<63])
           @ map (\<lambda>j. dig3 (set_bits d5 0 15 (ucast (securid_shortmac aes
                   (0x32 # serial t @ map (\<lambda>j. dig3 d5 (3 * j) + 0x30) [0..<63])))) (3 * j) + 0x30) [0..<5]
           @ [0] @ drop 82 out"
    by blast
  have nz: "\<forall>c\<in>set (serial t). c \<noteq> 0" using ser(2) isdigit_nonzero by blast
  have l5': "25 \<le> length d5" and l0': "25 \<le> length d0" using l5 d0 N by simp_all
  note dec = decode_of_encoded [OF hdr(2,3) ser(1) nz l5' l0', where aes = aes
      and rest = "drop 82 out", folded o']
  have e1: "(ucast (get_bits d5 128 16) :: 16 word) = flags newt"
    unfolding g1 ucast_field by (rule take_bit_word_eq_self) simp
  have "take_bit 14 (exp_date t) = exp_date t"
    using less_mask_eq [OF exp] by (simp only: take_bit_eq_mask)
  then have e2: "(ucast (get_bits d5 144 14) :: 16 word) = exp_date newt"
    unfolding g2 ucast_field same(2) .
  have e3: "(ucast (get_bits d5 159 15) :: 16 word) = securid_shortmac aes (dec_seed newt)"
    unfolding g3 ucast_field shortmac_15_bits same(3) ..
  have e4: "(ucast (get_bits d5 174 15) :: 16 word) = device_id_hash newt"
    unfolding g4 ucast_field dh ..
  show "securid_decode_token aes h (cstring out') d0 t0
    = (ERR_NONE, zero_token\<lparr>serial := serial newt, enc_seed := enc_seed newt,
         has_enc_seed := True, flags := flags newt, exp_date := exp_date newt,
         dec_seed_hash := securid_shortmac aes (dec_seed newt),
         device_id_hash := device_id_hash newt\<rparr>)"
    using dec(1) unfolding e1 e2 e3 e4 es same(1) .
  show "length (cstring out') = 81" by (rule dec(2))
  show "cstring out' ! 0 = 0x32" by (rule dec(3))
  show "out' ! 0 = 0x32" unfolding o' by simp
  show "dec_seed_hash newt = dec_seed_hash t" "dec_seed newt = dec_seed t"
    by (rule same(4), rule same(3))
qed



text \<open>
  The hypothesis on \<open>dec_seed_hash\<close> is needed for that field only: encode copies
  \<open>dec_seed_hash\<close> into \<open>newt\<close> as it finds it, and packs the short MAC of the seed.
\<close>

lemma codec_round_trip_dec_seed_hash:
  assumes bf: "block_fun aes"
    and hdr: "184 \<le> MAX_TOKEN_BITS h" "MIN_TOKEN_CHARS h \<le> 81" "81 \<le> MAX_TOKEN_CHARS h"
    and ser: "length (serial t) = 12" "\<forall>c\<in>set (serial t). isdigit c"
    and seed: "length (dec_seed t) = 16"
    and exp: "exp_date t < 2 ^ 14"
    and out: "82 \<le> length out"
    and d0: "length d0 = MAX_TOKEN_BITS h div 8 + 2"
    and enc: "securid_encode_token aes h t pass devid out = Inr (out', newt)"
  shows "dec_seed_hash (snd (securid_decode_token aes h (cstring out') d0 t0)) = dec_seed_hash newt
     \<longleftrightarrow> dec_seed_hash t = securid_shortmac aes (dec_seed t)"
proof -
  note r = decode_encode_fields [OF bf hdr ser seed exp out d0 enc]
  show ?thesis unfolding r(1) r(5) r(6) by auto
qed

end
